theory Spec2Isabelle
  imports Main "HOL-Library.Sublist" "HOL-Library.AList"
begin

section \<open>JavaScript primitives used by the server\<close>

text \<open>
  Strings are character lists. The functions of this section are the parts of the
  JavaScript runtime that the modelled code calls: decimal printing of a number inside a
  template literal, \<^verbatim>\<open>String.prototype.slice\<close>, \<^verbatim>\<open>split\<close>, \<^verbatim>\<open>join\<close>,
  and the two floating-point products \<^verbatim>\<open>Math.floor(n * 0.7)\<close> and
  \<^verbatim>\<open>Math.floor(n * 0.2)\<close>.
\<close>

definition digit_char :: "nat \<Rightarrow> char" where
  "digit_char d = ''0123456789'' ! d"

function show_nat :: "nat \<Rightarrow> string" where
  "show_nat n = (if n < 10 then [digit_char n] else show_nat (n div 10) @ [digit_char (n mod 10)])"
  by pat_completeness auto
termination
  by (relation "measure (\<lambda>n. n)") auto

declare show_nat.simps [simp del]

definition show_int :: "int \<Rightarrow> string" where
  "show_int i = (if i < 0 then ''-'' @ show_nat (nat (- i)) else show_nat (nat i))"

text \<open>
  \<^verbatim>\<open>s.slice(start, end)\<close> on strings and arrays: a negative index counts from the
  end, both indices are clamped to the length. \<^verbatim>\<open>s.slice(start)\<close> takes the end to be
  the length. \<^verbatim>\<open>-0\<close> is not negative, so \<^verbatim>\<open>s.slice(-0)\<close> is the whole string.
\<close>

definition js_slice :: "int \<Rightarrow> int \<Rightarrow> 'a list \<Rightarrow> 'a list" where
  "js_slice start end s =
     (let len = int (length s);
          k = (if start < 0 then max (len + start) 0 else min start len);
          e = (if end < 0 then max (len + end) 0 else min end len)
      in take (nat (e - k)) (drop (nat k) s))"

definition js_slice_from :: "int \<Rightarrow> 'a list \<Rightarrow> 'a list" where
  "js_slice_from start s = js_slice start (int (length s)) s"

text \<open>\<^verbatim>\<open>s.split(c)\<close> for a one-character separator: always at least one piece.\<close>

fun split_on :: "char \<Rightarrow> string \<Rightarrow> string list" where
  "split_on sep [] = [[]]"
| "split_on sep (c # cs) =
     (if c = sep then [] # split_on sep cs
      else (case split_on sep cs of l # ls \<Rightarrow> (c # l) # ls | [] \<Rightarrow> [[c]]))"

definition newline :: char where
  "newline = CHR 0x0A"

definition split_lines :: "string \<Rightarrow> string list" where
  "split_lines s = split_on newline s"

text \<open>\<^verbatim>\<open>s.startsWith(p)\<close> is \<^const>\<open>prefix\<close>; \<^verbatim>\<open>s.includes(p)\<close>:\<close>

fun str_includes :: "string \<Rightarrow> string \<Rightarrow> bool" where
  "str_includes [] p = (p = [])"
| "str_includes (c # cs) p = (prefix p (c # cs) \<or> str_includes cs p)"

text \<open>\<^verbatim>\<open>xs.join(sep)\<close>.\<close>

fun join :: "string \<Rightarrow> string list \<Rightarrow> string" where
  "join sep [] = []"
| "join sep [x] = x"
| "join sep (x # y # ys) = x @ sep @ join sep (y # ys)"

text \<open>
  IEEE-754 double arithmetic, for the products of an integer with the constants
  \<^verbatim>\<open>0.7\<close> and \<^verbatim>\<open>0.2\<close>. The double nearest to 0.7 is
  \<open>3152519739159347 / 2^52\<close> and the double nearest to 0.2 is
  \<open>3602879701896397 / 2^54\<close>. The product of an integer \<open>n < 2^53\<close> with such a constant
  is the exact product rounded to 53 significant bits, ties to even; \<open>round53\<close> does
  the rounding on the integer numerator.
\<close>

fun bitlen :: "nat \<Rightarrow> nat" where
  "bitlen n = (if n = 0 then 0 else Suc (bitlen (n div 2)))"

declare bitlen.simps [simp del]

definition round53 :: "nat \<Rightarrow> nat" where
  "round53 x =
     (let b = bitlen x in
      if b \<le> 53 then x
      else let sh = b - 53;
               q = x div 2 ^ sh;
               r = x mod 2 ^ sh;
               h = 2 ^ (sh - 1)
           in (if r > h \<or> (r = h \<and> odd q) then q + 1 else q) * 2 ^ sh)"

definition floor_mul_0_7 :: "nat \<Rightarrow> nat" where
  "floor_mul_0_7 n = round53 (n * 3152519739159347) div 2 ^ 52"

definition floor_mul_0_2 :: "nat \<Rightarrow> nat" where
  "floor_mul_0_2 n = round53 (n * 3602879701896397) div 2 ^ 54"

text \<open>
  JSON values, as tool arguments, tool results and directives. Objects are association
  lists in insertion order; numbers are integers (fractional numbers are outside the model).
\<close>

datatype json =
    JNull
  | JBool bool
  | JNum int
  | JStr string
  | JArr "json list"
  | JObj "(string \<times> json) list"

text \<open>Property access \<^verbatim>\<open>v.k\<close>; \<open>None\<close> is \<^verbatim>\<open>undefined\<close>.\<close>

fun jget :: "json \<Rightarrow> string \<Rightarrow> json option" where
  "jget (JObj kvs) k = map_of kvs k"
| "jget _ k = None"

text \<open>Truthiness of a possibly undefined value.\<close>

fun truthy :: "json option \<Rightarrow> bool" where
  "truthy None = False"
| "truthy (Some JNull) = False"
| "truthy (Some (JBool b)) = b"
| "truthy (Some (JNum n)) = (n \<noteq> 0)"
| "truthy (Some (JStr s)) = (s \<noteq> [])"
| "truthy (Some (JArr xs)) = True"
| "truthy (Some (JObj kvs)) = True"

text \<open>\<^verbatim>\<open>JSON.stringify\<close>: no white space, strings quoted and escaped.\<close>

definition hex_digit :: "nat \<Rightarrow> char" where
  "hex_digit d = ''0123456789abcdef'' ! d"

definition json_escape_char :: "char \<Rightarrow> string" where
  "json_escape_char c =
     (if c = CHR 0x22 then [CHR 0x5C, CHR 0x22]
      else if c = CHR 0x5C then [CHR 0x5C, CHR 0x5C]
      else if c = CHR 0x08 then [CHR 0x5C, CHR ''b'']
      else if c = CHR 0x0C then [CHR 0x5C, CHR ''f'']
      else if c = CHR 0x0A then [CHR 0x5C, CHR ''n'']
      else if c = CHR 0x0D then [CHR 0x5C, CHR ''r'']
      else if c = CHR 0x09 then [CHR 0x5C, CHR ''t'']
      else if of_char c < (32 :: nat)
        then [CHR 0x5C, CHR ''u'', CHR ''0'', CHR ''0'',
              hex_digit (of_char c div 16), hex_digit (of_char c mod 16)]
      else [c])"

definition json_quote :: "string \<Rightarrow> string" where
  "json_quote s = [CHR 0x22] @ concat (map json_escape_char s) @ [CHR 0x22]"

fun json_stringify :: "json \<Rightarrow> string" where
  "json_stringify JNull = ''null''"
| "json_stringify (JBool b) = (if b then ''true'' else ''false'')"
| "json_stringify (JNum n) = show_int n"
| "json_stringify (JStr s) = json_quote s"
| "json_stringify (JArr xs) = ''['' @ join '','' (map json_stringify xs) @ '']''"
| "json_stringify (JObj kvs) =
     ''{'' @ join '','' (map (\<lambda>(k, v). json_quote k @ '':'' @ json_stringify v) kvs) @ ''}''"

section \<open>Node's \<^verbatim>\<open>path.resolve\<close> on POSIX\<close>

text \<open>
  \<^verbatim>\<open>path.resolve(...args)\<close> scans its arguments from right to left, skipping empty
  ones and prepending each to the path built so far, until one starts with a slash; the
  current working directory (always absolute) is taken last. The result is then
  normalised: empty and \<^verbatim>\<open>.\<close> segments go, a \<^verbatim>\<open>..\<close> segment removes the segment
  before it (and is dropped at the root), and there is no trailing slash.
\<close>

fun resolve_scan :: "string list \<Rightarrow> string \<Rightarrow> string" where
  "resolve_scan [] acc = acc"
| "resolve_scan (p # ps) acc =
     (if p = [] then resolve_scan ps acc
      else if hd p = CHR ''/'' then p @ ''/'' @ acc
      else resolve_scan ps (p @ ''/'' @ acc))"

fun normalize_segments :: "string list \<Rightarrow> string list \<Rightarrow> string list" where
  "normalize_segments acc [] = acc"
| "normalize_segments acc (s # ss) =
     (if s = [] \<or> s = ''.'' then normalize_segments acc ss
      else if s = ''..'' then normalize_segments (butlast acc) ss
      else normalize_segments (acc @ [s]) ss)"

text \<open>The segments that normalisation keeps when there is no \<^verbatim>\<open>..\<close> among them.\<close>

definition keep_seg :: "string \<Rightarrow> bool" where
  "keep_seg s = (s \<noteq> [] \<and> s \<noteq> ''.'')"

definition path_resolve :: "string \<Rightarrow> string list \<Rightarrow> string" where
  "path_resolve cwd args =
     ''/'' @ join ''/'' (normalize_segments [] (split_on CHR ''/'' (resolve_scan (rev args @ [cwd]) [])))"

section \<open>Path confinement\<close>

datatype error =
    Security_error string
  | Permission_error string
  | Type_error
  | Not_modelled

text \<open>
  \<^verbatim>\<open>resolvePath(filePath, workspaceRoot)\<close> of the tool runner. The first argument of
  the model is the process's working directory.
\<close>

definition resolvePath :: "string \<Rightarrow> string \<Rightarrow> string \<Rightarrow> error + string" where
  "resolvePath cwd filePath workspaceRoot =
     (let resolved = path_resolve cwd [workspaceRoot, filePath];
          normalizedRoot = path_resolve cwd [workspaceRoot]
      in if \<not> prefix normalizedRoot resolved then Inl (Security_error filePath)
         else Inr resolved)"

text \<open>
  \<^verbatim>\<open>resolvePathInWorkspace(workspaceRoot, filePath)\<close> of the engine.
  \<^verbatim>\<open>workspaceRoot || process.cwd()\<close> takes the working directory when the root is
  undefined or empty; \<^verbatim>\<open>replace(/^\/+/, '')\<close> strips the leading slashes.
\<close>

definition strip_leading_slashes :: "string \<Rightarrow> string" where
  "strip_leading_slashes p = dropWhile (\<lambda>c. c = CHR ''/'') p"

definition resolvePathInWorkspace :: "string \<Rightarrow> string option \<Rightarrow> string \<Rightarrow> error + string" where
  "resolvePathInWorkspace cwd workspaceRoot filePath =
     (let root = path_resolve cwd [case workspaceRoot of None \<Rightarrow> cwd | Some r \<Rightarrow> if r = [] then cwd else r];
          resolved = path_resolve cwd [root, strip_leading_slashes filePath];
          normalizedRoot = root @ ''/''
      in if resolved \<noteq> root \<and> \<not> prefix normalizedRoot resolved
         then Inl (Security_error filePath)
         else Inr resolved)"

section \<open>Tool runner\<close>

text \<open>
  The environment of \<^verbatim>\<open>runTool\<close>: the working directory of the process, the
  policy table \<^verbatim>\<open>config.PERMISSIONS\<close>, and the file system as a map from absolute
  paths to file contents. The context argument carries the workspace root and the
  \<^verbatim>\<open>autoMode\<close> flag.
\<close>

record tool_ctx =
  ctx_workspaceRoot :: "string option"
  ctx_autoMode :: bool

record sys =
  cwd :: string
  permissions :: "string \<rightharpoonup> string"
  files :: "string \<rightharpoonup> string"

definition getWorkspaceRoot :: "string \<Rightarrow> tool_ctx \<Rightarrow> string" where
  "getWorkspaceRoot wd ctx =
     (case ctx_workspaceRoot ctx of
        Some r \<Rightarrow> if r \<noteq> [] then path_resolve wd [r] else wd
      | None \<Rightarrow> wd)"

text \<open>
  \<^verbatim>\<open>withPermission(toolName, actionFn, ctx)\<close>: the action is the value it would
  return; it is discarded when the policy denies the call.
\<close>

definition withPermission :: "(string \<rightharpoonup> string) \<Rightarrow> string \<Rightarrow> tool_ctx \<Rightarrow> error + 'a \<Rightarrow> error + 'a" where
  "withPermission perms toolName ctx action =
     (let policy = (case perms toolName of Some p \<Rightarrow> if p = [] then ''always'' else p
                    | None \<Rightarrow> ''always'')
      in if policy = ''never'' then Inl (Permission_error toolName)
         else if ctx_autoMode ctx then action
         else if policy = ''ask'' then Inl (Permission_error toolName)
         else action)"

text \<open>\<^verbatim>\<open>slice.map((l, i) => `${start + i + 1}|${l}`)\<close>.\<close>

definition number_lines :: "nat \<Rightarrow> string list \<Rightarrow> string list" where
  "number_lines start ls = map (\<lambda>(i, l). show_nat (start + i + 1) @ ''|'' @ l) (enumerate 0 ls)"

definition MAX_LINES_AUTO :: nat where
  "MAX_LINES_AUTO = 200"

text \<open>
  A numeric argument with a default, \<^verbatim>\<open>args.offset || 1\<close>: \<open>None\<close> when the value is
  truthy and not a number (the coercions of such values are outside the model).
\<close>

fun num_arg :: "json option \<Rightarrow> int \<Rightarrow> int option" where
  "num_arg (Some (JNum n)) d = Some (if n = 0 then d else n)"
| "num_arg v d = (if truthy v then None else Some d)"

text \<open>
  The body of \<^verbatim>\<open>case 'read_file'\<close>. A path argument that is not a string makes
  \<^verbatim>\<open>path.resolve\<close> throw a type error; a file that is not there makes
  \<^verbatim>\<open>readFile\<close> throw, which the body catches and returns as an error object.
  The file system holds regular files only: a path that names a directory is a missing
  file here, where the code's error object carries the message of \<^verbatim>\<open>EISDIR\<close>.
\<close>

definition read_file :: "string \<Rightarrow> (string \<rightharpoonup> string) \<Rightarrow> string \<Rightarrow> json \<Rightarrow> error + json" where
  "read_file wd fs WORKSPACE_ROOT args =
     (case jget args ''path'' of
        Some (JStr p) \<Rightarrow>
          (case resolvePath wd p WORKSPACE_ROOT of
             Inl e \<Rightarrow> Inl e
           | Inr targetPath \<Rightarrow>
               (case fs targetPath of
                  None \<Rightarrow> Inr (JObj [(''error'', JStr (''Cannot read '' @ p @
                             '': ENOENT: no such file or directory, open '' @ [CHR 0x27] @ targetPath @ [CHR 0x27]))])
                | Some content \<Rightarrow>
                    (let lines = split_lines content;
                         totalLines = length lines
                     in if truthy (jget args ''offset'') \<or> truthy (jget args ''limit'') then
                          (case (num_arg (jget args ''offset'') 1, num_arg (jget args ''limit'') 0) of
                             (Some off, Some lim) \<Rightarrow>
                               (let start = max 0 (off - 1);
                                    end = (if lim \<noteq> 0 then start + lim
                                           else min (int (length lines)) (start + int MAX_LINES_AUTO));
                                    slice = js_slice start end lines;
                                    numbered = join [newline] (number_lines (nat start) slice)
                                in Inr (JObj [(''file'', JStr p), (''content'', JStr numbered),
                                       (''totalLines'', JNum (int totalLines)),
                                       (''showing'', JStr (show_int (start + 1) @ ''-'' @
                                                           show_int (start + int (length slice))))]))
                           | _ \<Rightarrow> Inl Not_modelled)
                        else if totalLines > MAX_LINES_AUTO then
                          (let slice = js_slice 0 (int MAX_LINES_AUTO) lines;
                               numbered = join [newline] (number_lines 0 slice)
                           in Inr (JObj [(''file'', JStr p), (''content'', JStr numbered),
                                  (''totalLines'', JNum (int totalLines)),
                                  (''showing'', JStr (''1-'' @ show_nat MAX_LINES_AUTO)),
                                  (''note'', JStr (''File has '' @ show_nat totalLines @
                                     '' lines. Showing first '' @ show_nat MAX_LINES_AUTO @
                                     ''. Use offset/limit args to read more.''))]))
                        else
                          (let numbered = join [newline] (number_lines 0 lines)
                           in Inr (JObj [(''file'', JStr p), (''content'', JStr numbered),
                                  (''totalLines'', JNum (int totalLines))])))))
      | _ \<Rightarrow> Inl Type_error)"

text \<open>
  The body of \<^verbatim>\<open>case 'write_file'\<close>; \<^verbatim>\<open>args.content ?? ''\<close> is the empty
  string for a missing or null content. The result is paired with the new file system.
\<close>

definition write_file :: "string \<Rightarrow> (string \<rightharpoonup> string) \<Rightarrow> string \<Rightarrow> json \<Rightarrow> error + json \<times> (string \<rightharpoonup> string)" where
  "write_file wd fs WORKSPACE_ROOT args =
     (case jget args ''path'' of
        Some (JStr p) \<Rightarrow>
          (case resolvePath wd p WORKSPACE_ROOT of
             Inl e \<Rightarrow> Inl e
           | Inr targetPath \<Rightarrow>
               (case jget args ''content'' of
                  None \<Rightarrow> Inr (JObj [(''ok'', JBool True), (''message'', JStr (''Wrote '' @ p))],
                              fs(targetPath \<mapsto> []))
                | Some JNull \<Rightarrow> Inr (JObj [(''ok'', JBool True), (''message'', JStr (''Wrote '' @ p))],
                              fs(targetPath \<mapsto> []))
                | Some (JStr c) \<Rightarrow> Inr (JObj [(''ok'', JBool True), (''message'', JStr (''Wrote '' @ p))],
                              fs(targetPath \<mapsto> c))
                | _ \<Rightarrow> Inl Not_modelled))
      | _ \<Rightarrow> Inl Type_error)"

text \<open>
  \<^verbatim>\<open>runTool(tool, args, ctx)\<close>, for the two file tools above; the other cases of the
  switch are outside this model. The result is the returned object or the thrown error,
  with the file system after the call.
\<close>

definition runTool :: "sys \<Rightarrow> string \<Rightarrow> json \<Rightarrow> tool_ctx \<Rightarrow> (error + json) \<times> (string \<rightharpoonup> string)" where
  "runTool s tool args ctx =
     (let WORKSPACE_ROOT = getWorkspaceRoot (cwd s) ctx
      in if tool = ''read_file'' then
           (withPermission (permissions s) ''read_file'' ctx
              (read_file (cwd s) (files s) WORKSPACE_ROOT args), files s)
         else if tool = ''write_file'' then
           (case withPermission (permissions s) ''write_file'' ctx
                   (write_file (cwd s) (files s) WORKSPACE_ROOT args) of
              Inl e \<Rightarrow> (Inl e, files s)
            | Inr (r, fs') \<Rightarrow> (Inr r, fs'))
         else (Inl Not_modelled, files s))"

text \<open>A resolved path lies inside a root when it is the root or below it.\<close>

definition inside_root :: "string \<Rightarrow> string \<Rightarrow> bool" where
  "inside_root root p = (p = root \<or> prefix (root @ ''/'') p)"

section \<open>Context manager: token estimation and smart truncation\<close>

text \<open>
  \<^verbatim>\<open>estimateTokens(text) = Math.ceil(String(text).length / 3.5)\<close>, and 0 for an
  empty text. 3.5 is a double and the division is correctly rounded; the quotient
  \<open>2 * len / 7\<close> is either an integer or at least \<open>1/7\<close> away from one, so the
  ceiling of the double quotient is the ceiling of the exact quotient.
\<close>

definition estimateTokens :: "string \<Rightarrow> nat" where
  "estimateTokens text = (if text = [] then 0 else (2 * length text + 6) div 7)"

text \<open>
  \<^verbatim>\<open>smartTruncate(text, maxChars)\<close> on a string: the separator is
  \<^verbatim>\<open>\n\n... [N characters omitted] ...\n\n\<close>.
\<close>

definition omitted_separator :: "int \<Rightarrow> string" where
  "omitted_separator omitted =
     [newline, newline] @ ''... ['' @ show_int omitted @ '' characters omitted] ...''
       @ [newline, newline]"

definition smartTruncate :: "string \<Rightarrow> nat \<Rightarrow> string" where
  "smartTruncate text maxChars =
     (if length text \<le> maxChars then text
      else let headSize = floor_mul_0_7 maxChars;
               tailSize = floor_mul_0_2 maxChars;
               head = js_slice 0 (int headSize) text;
               tail = js_slice_from (- int tailSize) text;
               omitted = int (length text) - int headSize - int tailSize
           in head @ omitted_separator omitted @ tail)"


text \<open>The segments of a normalised path: not empty, not a dot segment, no slash inside.\<close>

definition clean_segs :: "string list \<Rightarrow> bool" where
  "clean_segs rs = (\<forall>s \<in> set rs. s \<noteq> [] \<and> s \<noteq> ''.'' \<and> s \<noteq> ''..'' \<and> CHR ''/'' \<notin> set s)"


section \<open>Context manager: tool results, trimming and compaction\<close>

definition MAX_TOOL_RESULT_CHARS :: nat where
  "MAX_TOOL_RESULT_CHARS = 3000"

definition MAX_FILE_CONTENT_CHARS :: nat where
  "MAX_FILE_CONTENT_CHARS = 4000"

text \<open>
  The object branch of \<^verbatim>\<open>truncateToolResult\<close>, on the fields of the clone. An
  assignment to a field that is there replaces its value in place, an assignment to a new
  field appends it.
\<close>

definition truncate_clone :: "(string \<times> json) list \<Rightarrow> json" where
  "truncate_clone clone0 =
     (let clone1 = (case map_of clone0 ''content'' of
                      Some (JStr c) \<Rightarrow>
                        if length c > MAX_FILE_CONTENT_CHARS
                        then AList.update ''content'' (JStr (smartTruncate c MAX_FILE_CONTENT_CHARS)) clone0
                        else clone0
                    | _ \<Rightarrow> clone0);
          clone2 = (case map_of clone1 ''stdout'' of
                      Some (JStr c) \<Rightarrow>
                        if length c > 2000
                        then AList.update ''stdout'' (JStr (smartTruncate c 2000)) clone1
                        else clone1
                    | _ \<Rightarrow> clone1);
          clone3 = (case map_of clone2 ''stderr'' of
                      Some (JStr c) \<Rightarrow>
                        if length c > 1000
                        then AList.update ''stderr'' (JStr (smartTruncate c 1000)) clone2
                        else clone2
                    | _ \<Rightarrow> clone2);
          clone4 = (case map_of clone3 ''files'' of
                      Some (JArr fs) \<Rightarrow>
                        if length fs > 80
                        then AList.update ''files''
                               (JArr (js_slice 0 80 fs @
                                  [JStr (''... and '' @ show_nat (length fs - 80) @ '' more files'')]))
                               clone3
                        else clone3
                    | _ \<Rightarrow> clone3);
          clone5 = (case map_of clone4 ''matches'' of
                      Some (JArr ms) \<Rightarrow>
                        if length ms > 30
                        then AList.update ''truncated''
                               (JStr (''Showing 30 of '' @ show_nat (length ms) @ '' matches''))
                               (AList.update ''matches'' (JArr (js_slice 0 30 ms)) clone4)
                        else clone4
                    | _ \<Rightarrow> clone4);
          out = json_stringify (JObj clone5)
      in if length out \<le> MAX_TOOL_RESULT_CHARS + 500 then JObj clone5
         else JStr (smartTruncate out MAX_TOOL_RESULT_CHARS))"

text \<open>
  \<^verbatim>\<open>truncateToolResult(result)\<close>. An array is an object too: its spread clone has
  the indices as keys.
\<close>

definition truncateToolResult :: "json \<Rightarrow> json" where
  "truncateToolResult result =
     (if \<not> truthy (Some result) then result
      else let s = (case result of JStr t \<Rightarrow> t | _ \<Rightarrow> json_stringify result)
           in if length s \<le> MAX_TOOL_RESULT_CHARS then result
              else (case result of
                      JObj kvs \<Rightarrow> truncate_clone kvs
                    | JArr xs \<Rightarrow> truncate_clone (zip (map show_nat [0..<length xs]) xs)
                    | _ \<Rightarrow> JStr (smartTruncate s MAX_TOOL_RESULT_CHARS)))"

text \<open>
  Messages, as the engine builds them: a role and a string content.
\<close>

record message =
  role :: string
  content :: string

definition estimateMessagesTokens :: "message list \<Rightarrow> nat" where
  "estimateMessagesTokens messages =
     sum_list (map (\<lambda>m. 4 + estimateTokens (role m) + estimateTokens (content m)) messages)"

text \<open>
  The loop of \<^verbatim>\<open>trimForContextWindow\<close>, from the most recent message backwards: the
  second argument is the part of \<^verbatim>\<open>rest\<close> not yet visited, newest first.
  \<^verbatim>\<open>Math.floor((available - usedTokens - 20) * 3.5)\<close> is exact in doubles.
\<close>

fun trim_loop :: "nat \<Rightarrow> message list \<Rightarrow> message list \<Rightarrow> nat \<Rightarrow> message list" where
  "trim_loop available [] kept usedTokens = kept"
| "trim_loop available (m # ms) kept usedTokens =
     (let tokens = estimateTokens (content m) + 4
      in if usedTokens + tokens \<le> available
         then trim_loop available ms (m # kept) (usedTokens + tokens)
         else if usedTokens + 100 \<le> available
         then (let remainingChars = (7 * (available - usedTokens - 20)) div 2
               in if remainingChars > 200
                  then m\<lparr>content := smartTruncate (content m) remainingChars\<rparr> # kept
                  else kept)
         else kept)"

text \<open>
  \<^verbatim>\<open>trimForContextWindow(messages, maxTokens)\<close>; a budget of 0 stands for a missing
  one. \<^verbatim>\<open>Math.floor(budget * 3.5 * 0.5)\<close> is exact in doubles.
\<close>

definition trimForContextWindow :: "message list \<Rightarrow> nat \<Rightarrow> message list" where
  "trimForContextWindow messages maxTokens =
     (if length messages \<le> 2 then messages
      else let budget = (if maxTokens = 0 then 6000 else maxTokens);
               system = hd messages;
               systemTokens = estimateTokens (content system);
               available = int budget - int systemTokens - 1024
           in if available \<le> 0
              then [system\<lparr>content := smartTruncate (content system) ((7 * budget) div 4)\<rparr>,
                    last messages]
              else system # trim_loop (nat available) (rev (tl messages)) [] 0)"

text \<open>
  The reply of \<^verbatim>\<open>callLLM\<close>: a string, an object with native tool calls and a
  content string, or an exception with its message.
\<close>

datatype llm_result =
    LLM_text string
  | LLM_tool_calls "json list" string
  | LLM_throws string

record compact_result =
  cr_messages :: "message list"
  cr_compacted :: bool
  cr_removedCount :: "nat option"

text \<open>
  The dash of the summary header, U+2014, is one UTF-16 unit of the string. Characters
  have eight bits here, so it is the single character \<open>0x97\<close>, the code of that dash
  in Windows-1252: lengths and token estimates are those of the code.
\<close>

definition em_dash :: string where
  "em_dash = [CHR 0x97]"

text \<open>
  \<^verbatim>\<open>compactConversation(messages, model)\<close>; the model is part of the function that
  stands for the LLM call.
\<close>

definition compactConversation :: "(message list \<Rightarrow> llm_result) \<Rightarrow> message list \<Rightarrow> compact_result" where
  "compactConversation callLLM messages =
     (if length messages \<le> 3
      then \<lparr>cr_messages = messages, cr_compacted = False, cr_removedCount = None\<rparr>
      else let system = hd messages;
               rest = tl messages;
               keepCount = min 4 (length rest);
               toCompact = js_slice 0 (int (length rest - keepCount)) rest;
               toKeep = js_slice_from (int (length rest - keepCount)) rest
           in if length toCompact < 2
              then \<lparr>cr_messages = messages, cr_compacted = False, cr_removedCount = None\<rparr>
              else let summaryInput = join [newline]
                         (map (\<lambda>m. ''['' @ (if role m = [] then ''unknown'' else role m) @ '']: '' @
                                    js_slice 0 500 (content m)) toCompact);
                       summaryStr =
                         (case callLLM
                                 [\<lparr>role = ''system'',
                                   content = ''Summarize this conversation history in 2-4 bullet points. Focus on: what was asked, what tools were used, what changes were made, what the current state is. Be very concise.''\<rparr>,
                                  \<lparr>role = ''user'', content = js_slice 0 3000 summaryInput\<rparr>] of
                            LLM_text s \<Rightarrow> s
                          | LLM_tool_calls tcs c \<Rightarrow> (if c \<noteq> [] then c else ''[object Object]'')
                          | LLM_throws e \<Rightarrow>
                              ''Previous conversation ('' @ show_nat (length toCompact) @
                              '' messages compacted): '' @
                              join ''; '' (map (\<lambda>m. js_slice 0 100 (content m))
                                             (filter (\<lambda>m. role m = ''user'') toCompact)));
                       compactedMessage =
                         \<lparr>role = ''assistant'',
                          content = json_stringify (JObj
                            [(''type'', JStr ''observation''),
                             (''content'', JStr (''[Conversation summary '' @ em_dash @ '' '' @
                                show_nat (length toCompact) @ '' older messages compacted]'' @
                                [newline] @ summaryStr))])\<rparr>
                   in \<lparr>cr_messages = system # compactedMessage # toKeep,
                       cr_compacted = True,
                       cr_removedCount = Some (length toCompact)\<rparr>)"

text \<open>
  \<^verbatim>\<open>shouldAutoCompact(messages, maxTokens)\<close>: the threshold is 0.75 of the budget.
\<close>

definition shouldAutoCompact :: "message list \<Rightarrow> nat \<Rightarrow> bool" where
  "shouldAutoCompact messages maxTokens =
     (4 * estimateMessagesTokens messages > 3 * (if maxTokens = 0 then 6000 else maxTokens))"

text \<open>
  The tokens that \<^verbatim>\<open>trimForContextWindow\<close> itself counts for a message: those of
  the content, and four.
\<close>

definition content_tokens :: "message list \<Rightarrow> nat" where
  "content_tokens ms = sum_list (map (\<lambda>m. estimateTokens (content m) + 4) ms)"


section \<open>The agent engine: one step of the ReAct loop\<close>

text \<open>
  The session state that \<^verbatim>\<open>runAgent\<close> keeps in the registry \<^verbatim>\<open>activeAgents\<close>.
\<close>

record agent_state =
  step :: nat
  model :: "string option"
  agentPlus :: bool
  sessionId :: string
  workspaceRoot :: string
  messages :: "message list"
  pendingDiff :: "json option"
  retryCount :: nat
  currentPlan :: "string option"
  completedTasks :: nat
  totalTasks :: nat
  consecutiveFinals :: nat
  compactCount :: nat
  consecutiveStepsWithoutAction :: nat
  stopRequested :: bool
  swarmDisabled :: bool

text \<open>
  What a run does besides changing the session: the events it sends to the client, the
  keys of the registry, and the calls that touch files or run tools, in order:
  \<^verbatim>\<open>saveContextCheckpoint\<close>, \<^verbatim>\<open>saveConversation\<close> with the identifier and the
  messages, \<^verbatim>\<open>saveSessionSummary\<close> with the identifier and the summary,
  \<^verbatim>\<open>executeToolAction\<close>, \<^verbatim>\<open>runTool('apply_diff', ...)\<close> and
  \<^verbatim>\<open>runSwarmWorkers\<close>.

  Modelled from the spec: \<^verbatim>\<open>saveConversation\<close> of \<^verbatim>\<open>store.js\<close>, which is not among
  the sources; it writes the conversation persistence record of the session under the
  given identifier and is an event here.
\<close>

datatype io_event =
    Save_checkpoint
  | Save_conversation string "message list"
  | Save_session_summary string json
  | Execute_tool json
  | Apply_diff json
  | Run_swarm "json list"

record world =
  st :: agent_state
  activeAgents :: "string set"
  sent :: "json list"
  io :: "io_event list"

datatype flow = Continue | Return | Throws

text \<open>
  The reply of the model for a step, after the engine's parsers: \<^verbatim>\<open>callLLM\<close> threw
  (with the details of the error), returned native tool calls (name and arguments of
  each), returned text that \<^verbatim>\<open>JSON.parse\<close> (also after the wrapping in braces),
  \<^verbatim>\<open>parseWrappedAction\<close> or \<^verbatim>\<open>salvageNonJsonResponse\<close> turned into a value, or
  returned other text. An empty reply is wrapped to \<^verbatim>\<open>{}\<close> and parses to the empty
  object, so the branch \<^verbatim>\<open>No response from model.\<close> of the code is never taken.
\<close>

datatype reply =
    Reply_throws string
  | Reply_tool_calls "(string \<times> json) list"
  | Reply_parsed json
  | Reply_text string

text \<open>
  \<^verbatim>\<open>executeToolAction\<close> is represented by what it can change: the messages it pushes,
  the events it sends, the pending diff it records, and whether it asks the loop to stop.
\<close>

record exec_result =
  exec_pushed :: "message list"
  exec_sent :: "json list"
  exec_pending :: "json option"
  exec_stop :: bool

text \<open>
  The surroundings of a step: the model's reply to the trimmed messages, the outcome of
  \<^verbatim>\<open>executeToolAction\<close>, the error of \<^verbatim>\<open>runTool('apply_diff', ...)\<close> if it fails, the
  outcome of the swarm workers (an exception with its reason, or their results), the
  summarising call of the compaction, \<^verbatim>\<open>JSON.parse\<close> (\<open>None\<close> when it throws), and
  the configuration values \<^verbatim>\<open>CONTEXT_BUDGET\<close> and \<^verbatim>\<open>SWARM_MAX_WORKERS\<close> (0 when
  not set).
\<close>

record step_env =
  env_callLLM :: "message list \<Rightarrow> reply"
  env_execute :: "json \<Rightarrow> agent_state \<Rightarrow> exec_result"
  env_apply_diff :: "json \<Rightarrow> string option"
  env_swarm :: "json list \<Rightarrow> string + string list"
  env_summary :: "message list \<Rightarrow> llm_result"
  env_json_parse :: "string \<Rightarrow> json option"
  CONTEXT_BUDGET :: nat
  SWARM_MAX_WORKERS :: nat

definition send :: "json \<Rightarrow> world \<Rightarrow> world" where
  "send e w = w\<lparr>sent := sent w @ [e]\<rparr>"

definition push :: "message \<Rightarrow> world \<Rightarrow> world" where
  "push m w = w\<lparr>st := (st w)\<lparr>messages := messages (st w) @ [m]\<rparr>\<rparr>"

definition perform :: "io_event \<Rightarrow> world \<Rightarrow> world" where
  "perform e w = w\<lparr>io := io w @ [e]\<rparr>"

definition thought :: "string \<Rightarrow> json" where
  "thought c = JObj [(''type'', JStr ''thought''), (''content'', JStr c)]"

definition final :: "string \<Rightarrow> json" where
  "final c = JObj [(''type'', JStr ''final''), (''content'', JStr c)]"

definition observation :: "json \<Rightarrow> json" where
  "observation c = JObj [(''type'', JStr ''observation''), (''content'', c)]"

text \<open>
  The step that gives a directive without a type one: only an object has the fields
  that decide.
\<close>

fun ensure_type :: "json \<Rightarrow> json" where
  "ensure_type (JObj kvs) =
     (if truthy (map_of kvs ''type'') then JObj kvs
      else if truthy (map_of kvs ''filePath'') \<and> truthy (map_of kvs ''diff'')
        then JObj (AList.update ''type'' (JStr ''diff_request'') kvs)
      else if truthy (map_of kvs ''tool'')
        then JObj (AList.update ''type'' (JStr ''action'') kvs)
      else if truthy (map_of kvs ''name'')
        then JObj (AList.update ''tool'' (the (map_of kvs ''name''))
                    (AList.update ''type'' (JStr ''action'') kvs))
      else if truthy (map_of kvs ''content'')
        then JObj (AList.update ''type'' (JStr ''thought'') kvs)
      else JObj kvs)"
| "ensure_type v = v"

text \<open>
  The regular expression \<^verbatim>\<open>/^\d+\.\s/\<close>: digits, a dot, a white-space character, at
  the start of the text; with the flags \<^verbatim>\<open>gm\<close>, at the start of every line.
\<close>

definition is_digit :: "char \<Rightarrow> bool" where
  "is_digit c = (c \<in> set ''0123456789'')"

definition is_space :: "char \<Rightarrow> bool" where
  "is_space c = (c \<in> set [CHR 0x09, CHR 0x0A, CHR 0x0B, CHR 0x0C, CHR 0x0D, CHR 0x20, CHR 0xA0])"

definition numbered_prefix :: "string \<Rightarrow> bool" where
  "numbered_prefix s =
     (takeWhile is_digit s \<noteq> [] \<and>
      (case dropWhile is_digit s of
         c1 # c2 # cs \<Rightarrow> c1 = CHR ''.'' \<and> is_space c2
       | _ \<Rightarrow> False))"

fun count_numbered_lines :: "bool \<Rightarrow> string \<Rightarrow> nat" where
  "count_numbered_lines at_start [] = 0"
| "count_numbered_lines at_start (c # cs) =
     (if at_start \<and> numbered_prefix (c # cs) then 1 else 0)
     + count_numbered_lines (c = CHR 0x0A \<or> c = CHR 0x0D) cs"

definition track_plan :: "json \<Rightarrow> agent_state \<Rightarrow> agent_state" where
  "track_plan parsed s =
     (case (jget parsed ''type'', jget parsed ''content'') of
        (Some (JStr ty), Some (JStr c)) \<Rightarrow>
          if ty = ''thought'' then
            (let s1 = (if str_includes c ''PLAN:'' \<or> str_includes c (''PLAN'' @ [newline])
                          \<or> numbered_prefix c
                       then (let taskCount = count_numbered_lines True c
                             in s\<lparr>currentPlan := Some (js_slice 0 500 c),
                                  totalTasks := (if taskCount > 0 then taskCount else totalTasks s)\<rparr>)
                       else s)
             in if str_includes c ''PROGRESS:'' \<or> str_includes c ''Completed task''
                then s1\<lparr>completedTasks := completedTasks s1 + 1\<rparr>
                else s1)
          else s
      | _ \<Rightarrow> s)"

text \<open>\<^verbatim>\<open>executeToolAction(parsed, state, send, messages)\<close>; \<open>True\<close> is \<^verbatim>\<open>'stop'\<close>.\<close>

definition executeToolAction :: "step_env \<Rightarrow> json \<Rightarrow> world \<Rightarrow> bool \<times> world" where
  "executeToolAction env parsed w =
     (let r = env_execute env parsed (st w)
      in (exec_stop r,
          w\<lparr>st := (st w)\<lparr>messages := messages (st w) @ exec_pushed r,
                          pendingDiff := (case exec_pending r of
                                            Some d \<Rightarrow> Some d
                                          | None \<Rightarrow> pendingDiff (st w))\<rparr>,
            sent := sent w @ exec_sent r,
            io := io w @ [Execute_tool parsed]\<rparr>))"

text \<open>The branch for native tool calls: each is sent, recorded and executed in turn.\<close>

fun native_tool_calls :: "step_env \<Rightarrow> (string \<times> json) list \<Rightarrow> world \<Rightarrow> flow \<times> world" where
  "native_tool_calls env [] w = (Continue, w)"
| "native_tool_calls env ((name, args) # tcs) w =
     (let parsed = JObj [(''type'', JStr ''action''), (''tool'', JStr name), (''args'', args)];
          w1 = push \<lparr>role = ''assistant'', content = json_stringify parsed\<rparr> (send parsed w)
      in case executeToolAction env parsed w1 of
           (True, w2) \<Rightarrow> (Return, w2)
         | (False, w2) \<Rightarrow> native_tool_calls env tcs w2)"

text \<open>The delegate branch, taken in Agent+ mode for a non-empty task array.\<close>

definition handle_delegate :: "step_env \<Rightarrow> json \<Rightarrow> json list \<Rightarrow> world \<Rightarrow> flow \<times> world" where
  "handle_delegate env parsed tasks w0 =
     (let w1 = push \<lparr>role = ''assistant'', content = json_stringify parsed\<rparr> w0
      in if swarmDisabled (st w1) then
           (let w2 = push \<lparr>role = ''user'',
                          content = ''Delegation is disabled (swarm failed earlier, e.g. memory/hardware). Complete the remaining tasks yourself in single-agent mode. Do NOT emit delegate again; use actions and thoughts only.''\<rparr> w1;
                w3 = send (thought ''Continuing in single-agent mode (delegation disabled).'') w2
            in (Continue, w3\<lparr>st := (st w3)\<lparr>consecutiveStepsWithoutAction := 0\<rparr>\<rparr>))
         else
           (let maxWorkers = max 1 (min 5 (if SWARM_MAX_WORKERS env = 0 then 2 else SWARM_MAX_WORKERS env));
                w2 = send (thought (''Swarm: delegating '' @ show_nat (length tasks) @
                             '' subtask(s) (max '' @ show_nat maxWorkers @ '' in parallel).'')) w1;
                w3 = perform (Run_swarm tasks) w2;
                w4 = (case env_swarm env tasks of
                        Inr results \<Rightarrow>
                          (let combined = join [newline, newline]
                                 (map (\<lambda>(idx, r). ''[Subtask '' @ show_nat (idx + 1) @ '']'' @ [newline] @ r)
                                      (enumerate 0 results))
                           in send (observation (JObj
                                  [(''swarm'', JBool True), (''results'', JNum (int (length results))),
                                   (''summary'', JStr (js_slice 0 500 combined @
                                       (if length combined > 500 then ''...'' else '''')))]))
                                (push \<lparr>role = ''tool'',
                                       content = json_stringify (observation (JStr
                                         (''Swarm results:'' @ [newline, newline] @ combined)))\<rparr> w3))
                      | Inl reason \<Rightarrow>
                          (let w5 = w3\<lparr>st := (st w3)\<lparr>swarmDisabled := True\<rparr>\<rparr>;
                               w6 = push \<lparr>role = ''tool'',
                                          content = json_stringify (observation (JStr
                                            (''Swarm failed ('' @ reason @ ''). Switching to single-agent mode for the rest of this run. Continue with your plan using actions and thoughts; do NOT use delegate again.'')))\<rparr> w5;
                               w7 = send (observation (JObj [(''swarm'', JBool False),
                                            (''error'', JStr reason), (''fallback'', JBool True)])) w6
                           in send (thought ''Swarm failed; continuing in single-agent mode.'') w7))
            in (Continue, w4\<lparr>st := (st w4)\<lparr>consecutiveStepsWithoutAction := 0\<rparr>\<rparr>)))"

definition continue_nudge :: "nat \<Rightarrow> nat \<Rightarrow> message" where
  "continue_nudge completed planned =
     \<lparr>role = ''user'',
      content = ''You said you'' @ [CHR 0x27] @ ''re done, but you'' @ [CHR 0x27] @
        ''ve only completed '' @ show_nat completed @ ''/'' @ show_nat planned @
        '' planned tasks. Please continue with the remaining tasks. Do NOT emit final until ALL tasks are complete.''\<rparr>"

text \<open>
  \<^verbatim>\<open>autoSaveWithSummary(sessionId, messages, resolvedModel, stateModel)\<close>: the
  conversation is saved; when it has more than six messages it is compacted, and when
  the compaction succeeds the compacted conversation is saved too and the first message
  whose content includes \<^verbatim>\<open>summary\<close> gives the session summary: the
  \<^verbatim>\<open>content\<close> of its parsed JSON when there is one, the message's content otherwise.
\<close>

definition autoSaveWithSummary :: "step_env \<Rightarrow> world \<Rightarrow> world" where
  "autoSaveWithSummary env w0 =
     (let sid = sessionId (st w0);
          msgs = messages (st w0);
          w1 = perform (Save_conversation sid msgs) w0
      in if length msgs > 6 then
           (let result = compactConversation (env_summary env) msgs
            in if cr_compacted result then
                 (let w2 = perform (Save_conversation (sid @ ''_compact'') (cr_messages result)) w1
                  in case find (\<lambda>m. str_includes (content m) ''summary'') (cr_messages result) of
                       Some summaryMsg \<Rightarrow>
                         perform (Save_session_summary sid
                           (case env_json_parse env (content summaryMsg) of
                              Some parsed \<Rightarrow>
                                (case jget parsed ''content'' of
                                   Some c \<Rightarrow> if truthy (Some c) then c else JStr (content summaryMsg)
                                 | None \<Rightarrow> JStr (content summaryMsg))
                            | None \<Rightarrow> JStr (content summaryMsg))) w2
                     | None \<Rightarrow> w2)
               else w1)
         else w1)"

text \<open>
  The handling of a \<^verbatim>\<open>final\<close> directive, after it was sent to the client and recorded
  as an assistant message.
\<close>

definition handle_final :: "step_env \<Rightarrow> world \<Rightarrow> flow \<times> world" where
  "handle_final env w0 =
     (let w = w0\<lparr>st := (st w0)\<lparr>consecutiveFinals := consecutiveFinals (st w0) + 1\<rparr>\<rparr>;
          s = st w
      in if totalTasks s > 0 \<and> completedTasks s < totalTasks s \<and> consecutiveFinals s \<le> 2
         then (Continue,
               send (thought (''Continuing... ('' @ show_nat (completedTasks s) @ ''/'' @
                              show_nat (totalTasks s) @ '' tasks done)''))
                 (push (continue_nudge (completedTasks s) (totalTasks s)) w))
         else (let w1 = autoSaveWithSummary env (perform Save_checkpoint w)
               in (Return, w1\<lparr>activeAgents := activeAgents w1 - {sessionId s}\<rparr>)))"

text \<open>The handling of a \<^verbatim>\<open>diff_request\<close> directive.\<close>

definition handle_diff_request :: "step_env \<Rightarrow> json \<Rightarrow> world \<Rightarrow> flow \<times> world" where
  "handle_diff_request env parsed w0 =
     (let w = w0\<lparr>st := (st w0)\<lparr>consecutiveStepsWithoutAction := 0, pendingDiff := Some parsed\<rparr>\<rparr>
      in if agentPlus (st w) then
           (let applyError = env_apply_diff env parsed;
                w1 = perform (Apply_diff parsed) w;
                w2 = w1\<lparr>st := (st w1)\<lparr>pendingDiff := None\<rparr>\<rparr>;
                w3 = push \<lparr>role = ''assistant'',
                           content = json_stringify (observation (JStr
                             (case applyError of
                                Some e \<Rightarrow> ''Auto-applied diff failed: '' @ e @ ''. Try a different approach.''
                              | None \<Rightarrow> ''Diff auto-applied successfully (Agent+ mode). Continue with the next task.'')))\<rparr> w2
            in (Continue,
                send (observation (JObj [(''autoApplied'', JBool True),
                                         (''success'', JBool (applyError = None))])) w3))
         else (Return, w))"

definition action_nudge :: message where
  "action_nudge =
     \<lparr>role = ''user'',
      content = ''You have been thinking without acting. Remember: a thought must always be followed by an action. Your next response MUST be {\"type\":\"action\",\"tool\":\"<tool_name>\",\"args\":{...}}. Take action now.''\<rparr>"

text \<open>
  The end of the loop body, reached by every directive that is not a final, a diff
  request or an action: the step counts as one without action.
\<close>

definition thought_only :: "world \<Rightarrow> flow \<times> world" where
  "thought_only w0 =
     (let w = w0\<lparr>st := (st w0)\<lparr>consecutiveFinals := 0,
                   consecutiveStepsWithoutAction := consecutiveStepsWithoutAction (st w0) + 1\<rparr>\<rparr>
      in (Continue,
          if consecutiveStepsWithoutAction (st w) \<ge> 2 then push action_nudge w else w))"

text \<open>
  \<^verbatim>\<open>{ ...parsed, sessionId }\<close>, the diff request as it is sent to the client.
\<close>

fun with_session :: "json \<Rightarrow> string \<Rightarrow> json" where
  "with_session (JObj kvs) sid = JObj (AList.update ''sessionId'' (JStr sid) kvs)"
| "with_session v sid = v"

text \<open>The handling of an \<^verbatim>\<open>action\<close> directive.\<close>

definition handle_action :: "step_env \<Rightarrow> json \<Rightarrow> world \<Rightarrow> flow \<times> world" where
  "handle_action env parsed w0 =
     (let w = w0\<lparr>st := (st w0)\<lparr>consecutiveFinals := 0, consecutiveStepsWithoutAction := 0\<rparr>\<rparr>
      in case executeToolAction env parsed w of
           (True, w1) \<Rightarrow> (Return, w1)
         | (False, w1) \<Rightarrow> (Continue, w1))"

text \<open>
  The guard of the delegate branch: the directive is a \<^verbatim>\<open>delegate\<close>, the session is in
  Agent+ mode, and \<^verbatim>\<open>tasks\<close> is a non-empty array.
\<close>

definition delegate_tasks :: "json \<Rightarrow> agent_state \<Rightarrow> json list option" where
  "delegate_tasks parsed s =
     (if jget parsed ''type'' = Some (JStr ''delegate'') \<and> agentPlus s
      then (case jget parsed ''tasks'' of
              Some (JArr tasks) \<Rightarrow> if tasks \<noteq> [] then Some tasks else None
            | _ \<Rightarrow> None)
      else None)"

text \<open>
  The loop body from the parsed directive on. Reading a property of \<^verbatim>\<open>null\<close>
  throws.
\<close>

definition dispatch :: "step_env \<Rightarrow> json \<Rightarrow> world \<Rightarrow> flow \<times> world" where
  "dispatch env parsed0 w0 =
     (if parsed0 = JNull then (Throws, w0)
      else
        (let parsed = ensure_type parsed0;
             w1 = w0\<lparr>st := track_plan parsed (st w0)\<rparr>;
             ty = jget parsed ''type''
         in case delegate_tasks parsed (st w1) of
              Some tasks \<Rightarrow> handle_delegate env parsed tasks w1
            | None \<Rightarrow>
                (let w2 = send (if ty = Some (JStr ''diff_request'')
                                then with_session parsed (sessionId (st w1)) else parsed) w1;
                     w3 = push \<lparr>role = ''assistant'', content = json_stringify parsed\<rparr> w2
                 in if ty = Some (JStr ''final'') then handle_final env w3
                    else if ty = Some (JStr ''diff_request'') then handle_diff_request env parsed w3
                    else if ty = Some (JStr ''action'') then handle_action env parsed w3
                    else thought_only w3)))"

definition NO_PROGRESS_LIMIT :: nat where
  "NO_PROGRESS_LIMIT = 10"

text \<open>The compaction at the head of a step.\<close>

definition auto_compact :: "step_env \<Rightarrow> world \<Rightarrow> world" where
  "auto_compact env w =
     (if compactCount (st w) < 3 \<and> shouldAutoCompact (messages (st w)) (CONTEXT_BUDGET env)
      then (let result = compactConversation (env_summary env) (messages (st w))
            in if cr_compacted result
               then perform Save_checkpoint
                      (w\<lparr>st := (st w)\<lparr>messages := cr_messages result,
                                       compactCount := compactCount (st w) + 1\<rparr>\<rparr>)
               else w)
      else w)"

text \<open>
  The part of the loop body that follows the call of the model: the retry on an
  exception, and the branches for native tool calls, a parsed directive and unparsable
  text.
\<close>

definition handle_reply :: "step_env \<Rightarrow> reply \<Rightarrow> world \<Rightarrow> flow \<times> world" where
  "handle_reply env r w2 =
     (case r of
        Reply_throws details \<Rightarrow>
          if retryCount (st w2) < 2 \<and> \<not> str_includes details ''not found''
             \<and> \<not> str_includes details ''does not exist''
          then (let w3 = w2\<lparr>st := (st w2)\<lparr>retryCount := retryCount (st w2) + 1\<rparr>\<rparr>
                in (Continue, send (thought (''Retrying (attempt '' @
                                      show_nat (retryCount (st w3) + 1) @ '')...'')) w3))
          else
            (let name = (case model (st w2) of Some m \<Rightarrow> if m = [] then None else Some m | None \<Rightarrow> None);
                 hint = (if str_includes details ''not found''
                         then [newline, newline] @ ''Model \"'' @
                              (case name of Some m \<Rightarrow> m | None \<Rightarrow> ''default'') @
                              ''\" not available. Pull it: ollama pull '' @
                              (case name of Some m \<Rightarrow> m | None \<Rightarrow> ''<model>'')
                         else [])
             in (Return, send (final (''LLM call failed: '' @ details @ hint))
                           (perform Save_checkpoint w2)))
      | Reply_tool_calls tcs \<Rightarrow>
          native_tool_calls env tcs
            (w2\<lparr>st := (st w2)\<lparr>retryCount := 0, consecutiveStepsWithoutAction := 0\<rparr>\<rparr>)
      | Reply_parsed parsed \<Rightarrow>
          dispatch env parsed (w2\<lparr>st := (st w2)\<lparr>retryCount := 0\<rparr>\<rparr>)
      | Reply_text textResponse \<Rightarrow>
          (Continue,
           push \<lparr>role = ''user'',
                 content = ''You must respond with valid JSON. Use {\"type\":\"action\",\"tool\":\"tool_name\",\"args\":{}} to take action, or {\"type\":\"thought\",\"content\":\"...\"} to reason. Do NOT output plain text.''\<rparr>
             (push \<lparr>role = ''assistant'', content = textResponse\<rparr>
                (w2\<lparr>st := (st w2)\<lparr>retryCount := 0\<rparr>\<rparr>))))"

text \<open>
  One iteration of the \<^verbatim>\<open>for\<close> loop of \<^verbatim>\<open>runAgent\<close>, without the increment of the
  step counter: the stop request and the no-progress limit are looked at first, then
  come the compaction, the periodic checkpoint, and the call of the model on the trimmed
  messages.
\<close>

definition agent_step :: "step_env \<Rightarrow> world \<Rightarrow> flow \<times> world" where
  "agent_step env w0 =
     (if stopRequested (st w0) then
        (let w1 = send (final ''Agent stopped by user.'') (perform Save_checkpoint w0)
         in (Return, w1\<lparr>st := (st w1)\<lparr>stopRequested := False\<rparr>\<rparr>))
      else if consecutiveStepsWithoutAction (st w0) \<ge> NO_PROGRESS_LIMIT then
        (Return, send (final ''Stopped: no further actions after several steps. Send a follow-up to continue.'')
                   (perform Save_checkpoint w0))
      else
        (let w1 = auto_compact env w0;
             w2 = (if step (st w1) > 0 \<and> step (st w1) mod 8 = 0
                   then perform Save_checkpoint w1 else w1);
             trimmedMessages = trimForContextWindow (messages (st w2)) (CONTEXT_BUDGET env)
         in handle_reply env (env_callLLM env trimmedMessages) w2))"

text \<open>
  The \<^verbatim>\<open>/stop-agent\<close> handler: it sets the flag of a registered session and answers
  whether there was one.
\<close>

definition stop_agent :: "string \<Rightarrow> world \<Rightarrow> bool \<times> world" where
  "stop_agent sid w =
     (if sid \<in> activeAgents w
      then (True, if sid = sessionId (st w) then w\<lparr>st := (st w)\<lparr>stopRequested := True\<rparr>\<rparr> else w)
      else (False, w))"

section \<open>The agent engine: the loop\<close>

text \<open>
  No part of a step writes the step counter; the loop below relies on it to end.
\<close>


lemma track_plan_step: "step (track_plan parsed s) = step s"
  by (simp add: track_plan_def Let_def split: option.splits json.splits)

lemma executeToolAction_step: "step (st (snd (executeToolAction env parsed w))) = step (st w)"
  by (simp add: executeToolAction_def Let_def)

lemma native_tool_calls_step: "step (st (snd (native_tool_calls env tcs w))) = step (st w)"
proof (induction tcs arbitrary: w)
  case Nil
  then show ?case by simp
next
  case (Cons tc tcs)
  obtain name args where tc: "tc = (name, args)" by (cases tc)
  let ?parsed = "JObj [(''type'', JStr ''action''), (''tool'', JStr name), (''args'', args)]"
  let ?w1 = "push \<lparr>role = ''assistant'', content = json_stringify ?parsed\<rparr> (send ?parsed w)"
  obtain b w2 where ex: "executeToolAction env ?parsed ?w1 = (b, w2)"
    by (cases "executeToolAction env ?parsed ?w1")
  have "step (st w2) = step (st ?w1)"
    using executeToolAction_step [of env ?parsed ?w1] ex by simp
  then have s2: "step (st w2) = step (st w)" by (simp add: push_def send_def)
  show ?case
    using Cons.IH [of w2] s2 ex unfolding tc
    by (cases b) (simp_all add: Let_def del: json_stringify.simps)
qed

lemma handle_delegate_step: "step (st (snd (handle_delegate env parsed tasks w))) = step (st w)"
  by (simp add: handle_delegate_def Let_def push_def send_def perform_def split: sum.splits
      del: json_stringify.simps)

lemma autoSaveWithSummary_step: "step (st (autoSaveWithSummary env w)) = step (st w)"
  by (simp add: autoSaveWithSummary_def Let_def perform_def split: option.splits)

lemma handle_final_step: "step (st (snd (handle_final env w))) = step (st w)"
  by (simp add: handle_final_def Let_def push_def send_def perform_def autoSaveWithSummary_step)

lemma handle_diff_request_step: "step (st (snd (handle_diff_request env parsed w))) = step (st w)"
  by (simp add: handle_diff_request_def Let_def push_def send_def perform_def
      del: json_stringify.simps)

lemma thought_only_step: "step (st (snd (thought_only w))) = step (st w)"
  by (simp add: thought_only_def Let_def push_def)

lemma handle_action_step: "step (st (snd (handle_action env parsed w))) = step (st w)"
proof -
  let ?w = "w\<lparr>st := (st w)\<lparr>consecutiveFinals := 0, consecutiveStepsWithoutAction := 0\<rparr>\<rparr>"
  obtain b w1 where ex: "executeToolAction env parsed ?w = (b, w1)"
    by (cases "executeToolAction env parsed ?w")
  have "step (st w1) = step (st ?w)" using executeToolAction_step [of env parsed ?w] ex by simp
  then show ?thesis using ex by (cases b) (simp_all add: handle_action_def Let_def)
qed

lemma dispatch_step: "step (st (snd (dispatch env parsed w))) = step (st w)"
proof (cases "parsed = JNull")
  case True
  then show ?thesis by (simp add: dispatch_def)
next
  case False
  let ?p = "ensure_type parsed"
  let ?w1 = "w\<lparr>st := track_plan ?p (st w)\<rparr>"
  have s1: "step (st ?w1) = step (st w)" by (simp add: track_plan_step)
  show ?thesis
  proof (cases "delegate_tasks ?p (st ?w1)")
    case (Some tasks)
    then show ?thesis
      using False s1 handle_delegate_step [of env ?p tasks ?w1]
      by (simp add: dispatch_def Let_def del: json_stringify.simps)
  next
    case None
    then show ?thesis
      using False s1
      by (simp add: dispatch_def Let_def handle_final_step handle_diff_request_step
          handle_action_step thought_only_step push_def send_def del: json_stringify.simps)
  qed
qed

lemma auto_compact_step: "step (st (auto_compact env w)) = step (st w)"
  by (simp add: auto_compact_def Let_def perform_def)

lemma handle_reply_step: "step (st (snd (handle_reply env r w))) = step (st w)"
  by (cases r)
     (simp_all add: handle_reply_def Let_def dispatch_step native_tool_calls_step
        push_def send_def perform_def)

lemma agent_step_keeps_step: "step (st (snd (agent_step env w))) = step (st w)"
proof -
  define w2 where "w2 = (if step (st (auto_compact env w)) > 0 \<and> step (st (auto_compact env w)) mod 8 = 0
                         then perform Save_checkpoint (auto_compact env w) else auto_compact env w)"
  have s2: "step (st w2) = step (st w)" by (simp add: w2_def auto_compact_step perform_def)
  have "agent_step env w =
     (if stopRequested (st w) then
        (Return, (send (final ''Agent stopped by user.'') (perform Save_checkpoint w))
                   \<lparr>st := (st (send (final ''Agent stopped by user.'') (perform Save_checkpoint w)))
                           \<lparr>stopRequested := False\<rparr>\<rparr>)
      else if consecutiveStepsWithoutAction (st w) \<ge> NO_PROGRESS_LIMIT then
        (Return, send (final ''Stopped: no further actions after several steps. Send a follow-up to continue.'')
                   (perform Save_checkpoint w))
      else handle_reply env (env_callLLM env (trimForContextWindow (messages (st w2)) (CONTEXT_BUDGET env))) w2)"
    unfolding agent_step_def Let_def w2_def ..
  then show ?thesis
    using s2 by (simp add: handle_reply_step send_def perform_def)
qed

text \<open>
  The \<^verbatim>\<open>for\<close> loop of \<^verbatim>\<open>runAgent\<close>: \<^verbatim>\<open>for (; state.step < maxSteps; state.step++)\<close>,
  with the surroundings of each step given by its number, and the final event of the
  safety cap after the loop.
\<close>

function runLoop :: "(nat \<Rightarrow> step_env) \<Rightarrow> nat \<Rightarrow> world \<Rightarrow> flow \<times> world" where
  "runLoop envs maxSteps w =
     (if step (st w) < maxSteps then
        (case agent_step (envs (step (st w))) w of
           (Continue, w1) \<Rightarrow> runLoop envs maxSteps (w1\<lparr>st := (st w1)\<lparr>step := step (st w1) + 1\<rparr>\<rparr>)
         | (f, w1) \<Rightarrow> (f, w1))
      else (Return,
            send (final ''Stopped after many steps to avoid long runs. Send a follow-up to continue.'')
              (autoSaveWithSummary (envs (step (st w))) (perform Save_checkpoint w))))"
  by pat_completeness auto
termination
proof (relation "measure (\<lambda>(envs, maxSteps, w). maxSteps - step (st w))")
  show "wf (measure (\<lambda>(envs, maxSteps, w). maxSteps - step (st w)))" by simp
next
  fix envs :: "nat \<Rightarrow> step_env" and maxSteps w x y
  assume lt: "step (st w) < maxSteps" and eq: "(x, y) = agent_step (envs (step (st w))) w"
  have "step (st y) = step (st w)"
    using agent_step_keeps_step [of "envs (step (st w))" w] eq [symmetric] by simp
  then show "((envs, maxSteps, y\<lparr>st := (st y)\<lparr>step := step (st y) + 1\<rparr>\<rparr>), (envs, maxSteps, w))
             \<in> measure (\<lambda>(envs, maxSteps, w). maxSteps - step (st w))"
    using lt by simp
qed

declare runLoop.simps [simp del]

text \<open>
  A session as \<^verbatim>\<open>runAgent\<close> creates it, registered under its identifier, and
  surroundings in which the model replies with the empty object and every tool returns
  nothing.
\<close>

definition example_state :: agent_state where
  "example_state =
     \<lparr>step = 0, model = None, agentPlus = False, sessionId = ''s1'',
      workspaceRoot = ''/home/u/proj'',
      messages = [\<lparr>role = ''system'', content = ''You are a coding agent.''\<rparr>,
                  \<lparr>role = ''user'', content = ''rename foo to bar''\<rparr>],
      pendingDiff = None, retryCount = 0, currentPlan = None, completedTasks = 0,
      totalTasks = 0, consecutiveFinals = 0, compactCount = 0,
      consecutiveStepsWithoutAction = 0, stopRequested = False, swarmDisabled = False\<rparr>"

definition example_world :: world where
  "example_world = \<lparr>st = example_state, activeAgents = {''s1''}, sent = [], io = []\<rparr>"

definition example_env :: step_env where
  "example_env =
     \<lparr>env_callLLM = (\<lambda>ms. Reply_parsed (JObj [])),
      env_execute = (\<lambda>parsed s. \<lparr>exec_pushed = [], exec_sent = [], exec_pending = None, exec_stop = False\<rparr>),
      env_apply_diff = (\<lambda>parsed. None),
      env_swarm = (\<lambda>tasks. Inr []),
      env_summary = (\<lambda>ms. LLM_text []),
      env_json_parse = (\<lambda>s. None),
      CONTEXT_BUDGET = 16000,
      SWARM_MAX_WORKERS = 2\<rparr>"

definition example_envs :: "nat \<Rightarrow> step_env" where
  "example_envs n = example_env"

definition example_delegate :: json where
  "example_delegate = JObj [(''type'', JStr ''delegate''), (''tasks'', JArr [JStr ''write the tests''])]"


section \<open>Properties of the string and path primitives\<close>


lemma split_on_nonempty: "split_on c s \<noteq> []"
  by (induction s) (auto split: list.splits)

lemma split_on_append: "split_on c (a @ c # b) = split_on c a @ split_on c b"
proof (induction a)
  case Nil
  then show ?case by simp
next
  case (Cons x a)
  obtain l ls where sp: "split_on c a = l # ls"
    using split_on_nonempty [of c a] by (cases "split_on c a") auto
  show ?case
    using Cons sp by simp
qed

lemma split_on_no_sep: "c \<notin> set s \<Longrightarrow> split_on c s = [s]"
  by (induction s) auto

lemma split_on_pieces: "x \<in> set (split_on c s) \<Longrightarrow> c \<notin> set x"
proof (induction s arbitrary: x)
  case Nil
  then show ?case by simp
next
  case (Cons a s)
  obtain l ls where sp: "split_on c s = l # ls"
    using split_on_nonempty [of c s] by (cases "split_on c s") auto
  show ?case
  proof (cases "a = c")
    case True
    with Cons show ?thesis by auto
  next
    case False
    with Cons.prems sp have "x = a # l \<or> x \<in> set ls" by simp
    moreover have "c \<notin> set l" using Cons.IH [of l] sp by simp
    moreover have "x \<in> set ls \<Longrightarrow> c \<notin> set x" using Cons.IH [of x] sp by simp
    ultimately show ?thesis using False by auto
  qed
qed

lemma join_Cons: "join sep (x # xs) = (if xs = [] then x else x @ sep @ join sep xs)"
  by (cases xs) auto

lemma split_on_join:
  "segs \<noteq> [] \<Longrightarrow> \<forall>s \<in> set segs. c \<notin> set s \<Longrightarrow> split_on c (join [c] segs) = segs"
proof (induction segs)
  case Nil
  then show ?case by simp
next
  case (Cons x xs)
  show ?case
  proof (cases "xs = []")
    case True
    with Cons.prems show ?thesis by (simp add: split_on_no_sep)
  next
    case False
    with Cons show ?thesis by (simp add: join_Cons split_on_append split_on_no_sep)
  qed
qed

lemma normalize_segments_append:
  "normalize_segments acc (xs @ ys) = normalize_segments (normalize_segments acc xs) ys"
  by (induction xs arbitrary: acc) auto


lemma normalize_segments_no_dotdot:
  "''..'' \<notin> set ss \<Longrightarrow> normalize_segments acc ss = acc @ filter keep_seg ss"
  by (induction ss arbitrary: acc) (auto simp: keep_seg_def)

lemma slash_join:
  "xs \<noteq> [] \<Longrightarrow> ''/'' @ join ''/'' xs = concat (map (\<lambda>s. ''/'' @ s) xs)"
proof (induction xs)
  case Nil
  then show ?case by simp
next
  case (Cons x xs)
  then show ?case by (cases "xs = []") (simp_all add: join_Cons)
qed

lemma slash_join_append:
  "rs \<noteq> [] \<Longrightarrow> ''/'' @ join ''/'' (rs @ qs) = (''/'' @ join ''/'' rs) @ concat (map (\<lambda>s. ''/'' @ s) qs)"
  using slash_join [of rs] slash_join [of "rs @ qs"] by simp

lemma normalize_segments_clean:
  "clean_segs acc \<Longrightarrow> \<forall>s \<in> set ss. CHR ''/'' \<notin> set s \<Longrightarrow> clean_segs (normalize_segments acc ss)"
proof (induction ss arbitrary: acc)
  case Nil
  then show ?case by simp
next
  case (Cons s ss)
  have bl: "clean_segs (butlast acc)"
    using Cons.prems(1) unfolding clean_segs_def by (auto dest: in_set_butlastD)
  have ap: "s \<noteq> [] \<Longrightarrow> s \<noteq> ''.'' \<Longrightarrow> s \<noteq> ''..'' \<Longrightarrow> clean_segs (acc @ [s])"
    using Cons.prems unfolding clean_segs_def by auto
  show ?case
    using Cons.IH [of acc] Cons.IH [of "butlast acc"] Cons.IH [of "acc @ [s]"] Cons.prems bl ap
    by auto
qed

lemma path_resolve_shape:
  "\<exists>rs. clean_segs rs \<and> path_resolve wd args = ''/'' @ join ''/'' rs"
proof -
  let ?rs = "normalize_segments [] (split_on CHR ''/'' (resolve_scan (rev args @ [wd]) []))"
  have "clean_segs ?rs"
    by (rule normalize_segments_clean) (auto simp: clean_segs_def dest: split_on_pieces)
  then show ?thesis unfolding path_resolve_def by blast
qed

lemma normalize_segments_of_clean:
  "clean_segs rs \<Longrightarrow> normalize_segments acc rs = acc @ rs"
proof -
  assume c: "clean_segs rs"
  then have "''..'' \<notin> set rs" unfolding clean_segs_def by auto
  moreover have "filter keep_seg rs = rs"
    using c unfolding clean_segs_def keep_seg_def by (auto intro: filter_True)
  ultimately show ?thesis by (simp add: normalize_segments_no_dotdot)
qed

lemma split_on_strip:
  "filter keep_seg (split_on CHR ''/'' (strip_leading_slashes p)) = filter keep_seg (split_on CHR ''/'' p)
   \<and> (''..'' \<in> set (split_on CHR ''/'' (strip_leading_slashes p)) \<longrightarrow> ''..'' \<in> set (split_on CHR ''/'' p))"
proof (induction p)
  case Nil
  then show ?case by (simp add: strip_leading_slashes_def)
next
  case (Cons a p)
  show ?case
  proof (cases "a = CHR ''/''")
    case True
    with Cons show ?thesis by (simp add: strip_leading_slashes_def keep_seg_def)
  next
    case False
    then show ?thesis by (simp add: strip_leading_slashes_def)
  qed
qed

lemma resolve_under_root:
  assumes rs: "clean_segs rs" and q: "q = [] \<or> hd q \<noteq> CHR ''/''"
      and nd: "''..'' \<notin> set (split_on CHR ''/'' q)"
  shows "path_resolve wd [''/'' @ join ''/'' rs, q] =
         ''/'' @ join ''/'' (rs @ filter keep_seg (split_on CHR ''/'' q))"
proof -
  let ?root = "''/'' @ join ''/'' rs"
  have root_split: "normalize_segments [] (split_on CHR ''/'' ?root) = rs"
  proof (cases "rs = []")
    case True
    then show ?thesis by simp
  next
    case False
    have "split_on CHR ''/'' (join ''/'' rs) = rs"
      using split_on_join [of rs "CHR ''/''"] False rs unfolding clean_segs_def by auto
    then show ?thesis using rs by (simp add: normalize_segments_of_clean)
  qed
  have scan: "resolve_scan (rev [?root, q] @ [wd]) [] = ?root @ ''/'' @ (if q = [] then [] else q @ ''/'')"
    using q by auto
  have sp: "split_on CHR ''/'' (?root @ ''/'' @ (if q = [] then [] else q @ ''/''))
            = split_on CHR ''/'' ?root @ (if q = [] then [[]] else split_on CHR ''/'' q @ [[]])"
    using split_on_append [of "CHR ''/''" ?root "q @ ''/''"] split_on_append [of "CHR ''/''" ?root "[]"]
      split_on_append [of "CHR ''/''" q "[]"]
    by (cases "q = []") simp_all
  have tailn: "normalize_segments rs (if q = [] then [[]] else split_on CHR ''/'' q @ [[]])
               = rs @ filter keep_seg (split_on CHR ''/'' q)"
  proof (cases "q = []")
    case True
    then show ?thesis by (simp add: keep_seg_def)
  next
    case False
    have "''..'' \<notin> set (split_on CHR ''/'' q @ [[]])" using nd by simp
    then show ?thesis using False
      by (simp add: normalize_segments_no_dotdot keep_seg_def)
  qed
  show ?thesis
    unfolding path_resolve_def scan sp normalize_segments_append root_split tailn ..
qed

lemma normalize_segments_strip:
  "normalize_segments acc (split_on CHR ''/'' (strip_leading_slashes p))
   = normalize_segments acc (split_on CHR ''/'' p)"
proof (induction p)
  case Nil
  then show ?case by (simp add: strip_leading_slashes_def)
next
  case (Cons a p)
  show ?case
  proof (cases "a = CHR ''/''")
    case True
    with Cons show ?thesis by (simp add: strip_leading_slashes_def)
  next
    case False
    then show ?thesis by (simp add: strip_leading_slashes_def)
  qed
qed

lemma resolve_under_root_segments:
  assumes rs: "clean_segs rs" and q: "q = [] \<or> hd q \<noteq> CHR ''/''"
  shows "path_resolve wd [''/'' @ join ''/'' rs, q] =
         ''/'' @ join ''/'' (normalize_segments rs (split_on CHR ''/'' q))"
proof -
  let ?root = "''/'' @ join ''/'' rs"
  have root_split: "normalize_segments [] (split_on CHR ''/'' ?root) = rs"
  proof (cases "rs = []")
    case True
    then show ?thesis by simp
  next
    case False
    have "split_on CHR ''/'' (join ''/'' rs) = rs"
      using split_on_join [of rs "CHR ''/''"] False rs unfolding clean_segs_def by auto
    then show ?thesis using rs by (simp add: normalize_segments_of_clean)
  qed
  have scan: "resolve_scan (rev [?root, q] @ [wd]) [] = ?root @ ''/'' @ (if q = [] then [] else q @ ''/'')"
    using q by auto
  have sp: "split_on CHR ''/'' (?root @ ''/'' @ (if q = [] then [] else q @ ''/''))
            = split_on CHR ''/'' ?root @ (if q = [] then [[]] else split_on CHR ''/'' q @ [[]])"
    using split_on_append [of "CHR ''/''" ?root "q @ ''/''"] split_on_append [of "CHR ''/''" ?root "[]"]
      split_on_append [of "CHR ''/''" q "[]"]
    by (cases "q = []") simp_all
  have tailn: "normalize_segments rs (if q = [] then [[]] else split_on CHR ''/'' q @ [[]])
               = normalize_segments rs (split_on CHR ''/'' q)"
    by (cases "q = []") (simp_all add: normalize_segments_append)
  show ?thesis
    unfolding path_resolve_def scan sp normalize_segments_append root_split tailn ..
qed

lemma join_clean_nonempty: "clean_segs xs \<Longrightarrow> xs \<noteq> [] \<Longrightarrow> join ''/'' xs \<noteq> []"
  by (cases xs) (auto simp: clean_segs_def join_Cons)

lemma split_join_clean: "clean_segs xs \<Longrightarrow> xs \<noteq> [] \<Longrightarrow> split_on CHR ''/'' (join ''/'' xs) = xs"
  using split_on_join [of xs "CHR ''/''"] unfolding clean_segs_def by auto

lemma inside_iff_prefix:
  assumes rs: "clean_segs rs" and ne: "rs \<noteq> []" and segs: "clean_segs segs"
  shows "(''/'' @ join ''/'' segs = ''/'' @ join ''/'' rs
          \<or> prefix ((''/'' @ join ''/'' rs) @ ''/'') (''/'' @ join ''/'' segs))
         \<longleftrightarrow> prefix rs segs"
proof
  assume a: "''/'' @ join ''/'' segs = ''/'' @ join ''/'' rs
          \<or> prefix ((''/'' @ join ''/'' rs) @ ''/'') (''/'' @ join ''/'' segs)"
  show "prefix rs segs"
  proof (cases "''/'' @ join ''/'' segs = ''/'' @ join ''/'' rs")
    case True
    then have e: "join ''/'' segs = join ''/'' rs" by (simp only: same_append_eq)
    have sne: "segs \<noteq> []"
    proof
      assume "segs = []"
      then have "join ''/'' segs = []" by simp
      then have "join ''/'' rs = []" unfolding e .
      then show False using join_clean_nonempty [OF rs ne] by (rule notE [rotated])
    qed
    have "segs = split_on CHR ''/'' (join ''/'' segs)"
      by (rule split_join_clean [OF segs sne, symmetric])
    also have "\<dots> = split_on CHR ''/'' (join ''/'' rs)" unfolding e ..
    also have "\<dots> = rs" by (rule split_join_clean [OF rs ne])
    finally have "segs = rs" .
    then show ?thesis by (simp only: prefix_order.order_refl)
  next
    case False
    from a have "prefix ((''/'' @ join ''/'' rs) @ ''/'') (''/'' @ join ''/'' segs)"
    proof
      assume "''/'' @ join ''/'' segs = ''/'' @ join ''/'' rs"
      with False show ?thesis by (rule notE)
    next
      assume "prefix ((''/'' @ join ''/'' rs) @ ''/'') (''/'' @ join ''/'' segs)"
      then show ?thesis .
    qed
    then obtain rest where "''/'' @ join ''/'' segs = ((''/'' @ join ''/'' rs) @ ''/'') @ rest"
      unfolding prefix_def by (rule exE)
    then have "''/'' @ join ''/'' segs = ''/'' @ (join ''/'' rs @ CHR ''/'' # rest)"
      by (simp only: append_assoc append_Cons append_Nil)
    then have e: "join ''/'' segs = join ''/'' rs @ CHR ''/'' # rest" by (simp only: same_append_eq)
    have sne: "segs \<noteq> []"
    proof
      assume "segs = []"
      then have "join ''/'' segs = []" by simp
      then have "join ''/'' rs @ CHR ''/'' # rest = []" unfolding e .
      then show False by (simp only: append_is_Nil_conv list.distinct simp_thms)
    qed
    have "segs = split_on CHR ''/'' (join ''/'' segs)"
      by (rule split_join_clean [OF segs sne, symmetric])
    also have "\<dots> = split_on CHR ''/'' (join ''/'' rs @ CHR ''/'' # rest)" unfolding e ..
    also have "\<dots> = split_on CHR ''/'' (join ''/'' rs) @ split_on CHR ''/'' rest"
      by (rule split_on_append)
    also have "\<dots> = rs @ split_on CHR ''/'' rest"
      unfolding split_join_clean [OF rs ne] ..
    finally have "segs = rs @ split_on CHR ''/'' rest" .
    then show ?thesis unfolding prefix_def by (rule exI)
  qed
next
  assume "prefix rs segs"
  then obtain qs where s: "segs = rs @ qs" unfolding prefix_def by (rule exE)
  show "''/'' @ join ''/'' segs = ''/'' @ join ''/'' rs
          \<or> prefix ((''/'' @ join ''/'' rs) @ ''/'') (''/'' @ join ''/'' segs)"
  proof (cases qs)
    case Nil
    have "segs = rs" unfolding s Nil by (rule append_Nil2)
    then have "''/'' @ join ''/'' segs = ''/'' @ join ''/'' rs" by (rule arg_cong)
    then show ?thesis by (rule disjI1)
  next
    case (Cons q qs')
    have "''/'' @ join ''/'' segs = (''/'' @ join ''/'' rs) @ concat (map (\<lambda>s. ''/'' @ s) qs)"
      unfolding s by (rule slash_join_append [OF ne])
    also have "concat (map (\<lambda>s. ''/'' @ s) qs) = ''/'' @ (q @ concat (map (\<lambda>s. ''/'' @ s) qs'))"
      unfolding Cons by simp
    finally have "''/'' @ join ''/'' segs
        = ((''/'' @ join ''/'' rs) @ ''/'') @ (q @ concat (map (\<lambda>s. ''/'' @ s) qs'))"
      by (simp only: append_assoc)
    then have "prefix ((''/'' @ join ''/'' rs) @ ''/'') (''/'' @ join ''/'' segs)"
      unfolding prefix_def by (rule exI)
    then show ?thesis by (rule disjI2)
  qed
qed

section \<open>Path confinement in the engine\<close>

text \<open>
  \<^verbatim>\<open>resolvePathInWorkspace\<close> strips every leading slash of the supplied path before
  resolving it against the workspace root. When the root is a directory other than the
  file system root, a path with no \<^verbatim>\<open>..\<close> segment, absolute or not, is never
  rejected: it resolves to the root followed by its non-empty, non-dot segments
  (\<^verbatim>\<open>/etc/passwd\<close> becomes \<^verbatim>\<open><root>/etc/passwd\<close>).
\<close>

lemma resolvePathInWorkspace_without_dotdot:
  assumes root: "root = path_resolve wd [case ws of None \<Rightarrow> wd | Some r \<Rightarrow> if r = [] then wd else r]"
      and nonroot: "root \<noteq> ''/''"
      and nd: "''..'' \<notin> set (split_on CHR ''/'' p)"
  shows "resolvePathInWorkspace wd ws p =
         Inr (root @ concat (map (\<lambda>s. ''/'' @ s) (filter keep_seg (split_on CHR ''/'' p))))"
proof -
  obtain rs where rs: "clean_segs rs" and shape: "root = ''/'' @ join ''/'' rs"
    using path_resolve_shape root by blast
  have ne: "rs \<noteq> []" using nonroot shape by auto
  let ?q = "strip_leading_slashes p"
  let ?qs = "filter keep_seg (split_on CHR ''/'' p)"
  have q: "?q = [] \<or> hd ?q \<noteq> CHR ''/''"
    unfolding strip_leading_slashes_def using hd_dropWhile [of "\<lambda>c. c = CHR ''/''" p] by auto
  have nd': "''..'' \<notin> set (split_on CHR ''/'' ?q)" using nd split_on_strip [of p] by blast
  have "path_resolve wd [root, ?q] = ''/'' @ join ''/'' (rs @ filter keep_seg (split_on CHR ''/'' ?q))"
    unfolding shape by (rule resolve_under_root [OF rs q nd'])
  also have "\<dots> = ''/'' @ join ''/'' (rs @ ?qs)" using split_on_strip [of p] by simp
  also have "\<dots> = root @ concat (map (\<lambda>s. ''/'' @ s) ?qs)"
    unfolding shape by (rule slash_join_append [OF ne])
  finally have res0: "path_resolve wd [root, ?q] = root @ concat (map (\<lambda>s. ''/'' @ s) ?qs)" .
  define rest where "rest = concat (map (\<lambda>s. ''/'' @ s) ?qs)"
  have res: "path_resolve wd [root, ?q] = root @ rest" using res0 by (simp add: rest_def)
  have ok: "rest = [] \<or> prefix ''/'' rest"
    unfolding rest_def by (cases ?qs) auto
  have "resolvePathInWorkspace wd ws p = Inr (root @ rest)"
    unfolding resolvePathInWorkspace_def root [symmetric] Let_def res using ok by auto
  then show ?thesis unfolding rest_def .
qed

lemma resolvePathInWorkspace_etc_passwd:
  "''/home/u/proj'' = path_resolve ''/srv'' [case Some ''/home/u/proj'' of None \<Rightarrow> ''/srv'' | Some r \<Rightarrow> if r = [] then ''/srv'' else r]
   \<and> ''/home/u/proj'' \<noteq> ''/''
   \<and> ''..'' \<notin> set (split_on CHR ''/'' ''/etc/passwd'')
   \<and> resolvePathInWorkspace ''/srv'' (Some ''/home/u/proj'') ''/etc/passwd'' = Inr ''/home/u/proj/etc/passwd''"
proof -
  have h1: "''/home/u/proj'' = path_resolve ''/srv'' [case Some ''/home/u/proj'' of None \<Rightarrow> ''/srv'' | Some r \<Rightarrow> if r = [] then ''/srv'' else r]"
    by (simp add: path_resolve_def)
  have h2: "''/home/u/proj'' \<noteq> ''/''" by simp
  have h3: "''..'' \<notin> set (split_on CHR ''/'' ''/etc/passwd'')" by simp
  show ?thesis
    using resolvePathInWorkspace_without_dotdot [OF h1 h2 h3] h1 h2 h3
    by (simp add: keep_seg_def)
qed

text \<open>
  For every path, still with a root other than the file system root: the segments of the
  path are normalised on top of the segments of the root, a \<^verbatim>\<open>..\<close> removing the
  segment before it, and the path is accepted exactly when the segments of the root are
  still a prefix of the result. So \<^verbatim>\<open>a/../b\<close> is accepted and only a path whose
  \<^verbatim>\<open>..\<close> segments climb out of the root raises the security error.
\<close>

lemma resolvePathInWorkspace_inside_iff:
  assumes root: "root = path_resolve wd [case ws of None \<Rightarrow> wd | Some r \<Rightarrow> if r = [] then wd else r]"
      and nonroot: "root \<noteq> ''/''"
  shows "\<exists>rs. clean_segs rs \<and> root = ''/'' @ join ''/'' rs
          \<and> resolvePathInWorkspace wd ws p =
              (if prefix rs (normalize_segments rs (split_on CHR ''/'' p))
               then Inr (''/'' @ join ''/'' (normalize_segments rs (split_on CHR ''/'' p)))
               else Inl (Security_error p))"
proof -
  obtain rs where rs: "clean_segs rs" and shape: "root = ''/'' @ join ''/'' rs"
    using path_resolve_shape root by blast
  have ne: "rs \<noteq> []" using nonroot shape by auto
  let ?q = "strip_leading_slashes p"
  let ?segs = "normalize_segments rs (split_on CHR ''/'' p)"
  define resolved where "resolved = ''/'' @ join ''/'' ?segs"
  have q: "?q = [] \<or> hd ?q \<noteq> CHR ''/''"
    unfolding strip_leading_slashes_def using hd_dropWhile [of "\<lambda>c. c = CHR ''/''" p] by auto
  have res: "path_resolve wd [root, ?q] = resolved"
    unfolding resolved_def shape resolve_under_root_segments [OF rs q] normalize_segments_strip ..
  have cs: "clean_segs ?segs"
    by (rule normalize_segments_clean [OF rs]) (auto dest: split_on_pieces)
  define inside where "inside = (resolved = root \<or> prefix (root @ ''/'') resolved)"
  have iff: "inside \<longleftrightarrow> prefix rs ?segs"
    unfolding inside_def resolved_def shape by (rule inside_iff_prefix [OF rs ne cs])
  have d: "resolvePathInWorkspace wd ws p =
           (if resolved \<noteq> root \<and> \<not> prefix (root @ ''/'') resolved
            then Inl (Security_error p) else Inr resolved)"
    unfolding resolvePathInWorkspace_def root [symmetric] Let_def res ..
  have "(resolved \<noteq> root \<and> \<not> prefix (root @ ''/'') resolved) = (\<not> inside)"
    unfolding inside_def by (rule de_Morgan_disj [symmetric])
  then have "resolvePathInWorkspace wd ws p =
           (if \<not> inside then Inl (Security_error p) else Inr resolved)"
    unfolding d by (rule arg_cong [where f = "\<lambda>b. if b then Inl (Security_error p) else Inr resolved"])
  then have "resolvePathInWorkspace wd ws p =
              (if prefix rs ?segs then Inr resolved else Inl (Security_error p))"
    unfolding iff by (cases "prefix rs ?segs") (simp_all only: if_True if_False not_True_eq_False not_False_eq_True)
  then have r: "resolvePathInWorkspace wd ws p =
              (if prefix rs ?segs then Inr (''/'' @ join ''/'' ?segs) else Inl (Security_error p))"
    unfolding resolved_def .
  show ?thesis
    by (rule exI [of _ rs], intro conjI) (rule rs shape r)+
qed

lemma resolvePathInWorkspace_dotdot_inside:
  "resolvePathInWorkspace ''/srv'' (Some ''/home/u/proj'') ''a/../b'' = Inr ''/home/u/proj/b''
   \<and> resolvePathInWorkspace ''/srv'' (Some ''/home/u/proj'') ''/../../etc/passwd''
       = Inl (Security_error ''/../../etc/passwd'')"
  by (simp add: resolvePathInWorkspace_def path_resolve_def strip_leading_slashes_def Let_def)

text \<open>
  Claim C10 says that every absolute path such as \<^verbatim>\<open>/etc/passwd\<close> is taken as
  relative to the workspace and accepted. When the workspace root is the file system root
  (given as \<^verbatim>\<open>/\<close>, or the working directory \<^verbatim>\<open>/\<close> of the process when no root is
  given), \<^verbatim>\<open>root + path.sep\<close> is \<^verbatim>\<open>//\<close>, which no resolved path starts with: the
  path \<^verbatim>\<open>/etc/passwd\<close> resolves to \<^verbatim>\<open>/etc/passwd\<close>, inside the root, and is
  rejected with the security error, and so is every other path below the root.
\<close>

theorem resolvePathInWorkspace_rejects_below_file_system_root:
  "resolvePathInWorkspace ''/srv'' (Some ''/'') ''/etc/passwd'' = Inl (Security_error ''/etc/passwd'')
   \<and> path_resolve ''/srv'' [''/''] = ''/''
   \<and> path_resolve ''/srv'' [''/'', strip_leading_slashes ''/etc/passwd''] = ''/etc/passwd''
   \<and> resolvePathInWorkspace ''/'' None ''notes.txt'' = Inl (Security_error ''notes.txt'')"
  by (simp add: resolvePathInWorkspace_def path_resolve_def strip_leading_slashes_def Let_def)

section \<open>Reading files\<close>

lemma digit_char_in: "d < 10 \<Longrightarrow> digit_char d \<in> set ''0123456789''"
  unfolding digit_char_def by (rule nth_mem) simp

lemma show_nat_digits: "set (show_nat n) \<subseteq> set ''0123456789''"
proof (induction n rule: show_nat.induct)
  case (1 n)
  show ?case
  proof (cases "n < 10")
    case True
    then show ?thesis using digit_char_in [of n] by (subst show_nat.simps) simp
  next
    case False
    have "digit_char (n mod 10) \<in> set ''0123456789''" by (rule digit_char_in) simp
    with False 1 show ?thesis by (subst show_nat.simps) simp
  qed
qed

lemma show_nat_no_newline: "newline \<notin> set (show_nat n)"
  using show_nat_digits [of n] by (auto simp: newline_def)

lemma number_lines_length: "length (number_lines k ls) = length ls"
  by (simp add: number_lines_def)

lemma number_lines_no_newline:
  "\<forall>l \<in> set ls. newline \<notin> set l \<Longrightarrow> \<forall>x \<in> set (number_lines k ls). newline \<notin> set x"
  using show_nat_no_newline
  by (auto simp: number_lines_def in_set_enumerate_eq newline_def)

lemma split_lines_join:
  "ls \<noteq> [] \<Longrightarrow> \<forall>l \<in> set ls. newline \<notin> set l \<Longrightarrow> split_lines (join [newline] ls) = ls"
  unfolding split_lines_def by (rule split_on_join)

lemma split_lines_pieces: "l \<in> set (split_lines s) \<Longrightarrow> newline \<notin> set l"
  unfolding split_lines_def by (rule split_on_pieces)

lemma js_slice_take: "js_slice 0 (int n) xs = take n xs"
  by (auto simp: js_slice_def Let_def min_def)

lemma show_nat_200: "show_nat 200 = ''200''"
  by (simp add: show_nat.simps digit_char_def)

lemma withPermission_granted:
  "perms t \<noteq> Some ''never'' \<Longrightarrow> ctx_autoMode ctx \<or> perms t \<noteq> Some ''ask'' \<Longrightarrow>
   withPermission perms t ctx a = a"
  by (auto simp: withPermission_def Let_def split: option.splits)

lemma number_lines_nth:
  "number_lines 0 ls = map (\<lambda>i. show_nat (Suc i) @ ''|'' @ ls ! i) [0..<length ls]"
  by (rule nth_equalityI) (simp_all add: number_lines_def nth_enumerate_eq)

lemma number_lines_take_200:
  assumes "200 < length ls"
  shows "number_lines 0 (take 200 ls) = map (\<lambda>i. show_nat (Suc i) @ ''|'' @ ls ! i) [0..<200]"
proof -
  have "length (take 200 ls) = 200" using assms by simp
  then have "number_lines 0 (take 200 ls)
             = map (\<lambda>i. show_nat (Suc i) @ ''|'' @ take 200 ls ! i) [0..<200]"
    using number_lines_nth [of "take 200 ls"] by simp
  also have "\<dots> = map (\<lambda>i. show_nat (Suc i) @ ''|'' @ ls ! i) [0..<200]"
    by (rule map_cong) simp_all
  finally show ?thesis .
qed

text \<open>
  Claim C6. For a readable file inside the workspace whose content splits into more than
  200 lines, \<^verbatim>\<open>read_file\<close> with no offset and no limit (and a policy that allows the
  call) returns the first 200 lines of the file, line \<open>i\<close> of the file prefixed by its
  number \<open>i\<close> and a bar, joined by newlines, with the true total line count, the range
  \<^verbatim>\<open>1-200\<close>, and a note that states the total and offers offset/limit. Splitting the
  returned content at newlines gives back exactly these 200 numbered lines.
\<close>

theorem read_file_auto_paginates:
  assumes never: "permissions s ''read_file'' \<noteq> Some ''never''"
      and ask: "ctx_autoMode ctx \<or> permissions s ''read_file'' \<noteq> Some ''ask''"
      and path: "jget args ''path'' = Some (JStr p)"
      and inside: "resolvePath (cwd s) p (getWorkspaceRoot (cwd s) ctx) = Inr target"
      and readable: "files s target = Some body"
      and no_offset: "\<not> truthy (jget args ''offset'')"
      and no_limit: "\<not> truthy (jget args ''limit'')"
      and long: "length (split_lines body) > 200"
  shows "runTool s ''read_file'' args ctx =
           (Inr (JObj [(''file'', JStr p),
                       (''content'', JStr (join [newline]
                          (map (\<lambda>i. show_nat (Suc i) @ ''|'' @ split_lines body ! i) [0..<200]))),
                       (''totalLines'', JNum (int (length (split_lines body)))),
                       (''showing'', JStr ''1-200''),
                       (''note'', JStr (''File has '' @ show_nat (length (split_lines body)) @
                          '' lines. Showing first 200. Use offset/limit args to read more.''))]),
            files s)
         \<and> split_lines (join [newline]
              (map (\<lambda>i. show_nat (Suc i) @ ''|'' @ split_lines body ! i) [0..<200]))
             = map (\<lambda>i. show_nat (Suc i) @ ''|'' @ split_lines body ! i) [0..<200]
         \<and> length (split_lines (join [newline]
              (map (\<lambda>i. show_nat (Suc i) @ ''|'' @ split_lines body ! i) [0..<200]))) = 200"
proof -
  let ?lines = "split_lines body"
  let ?out = "map (\<lambda>i. show_nat (Suc i) @ ''|'' @ ?lines ! i) [0..<200]"
  have nl: "number_lines 0 (take 200 ?lines) = ?out"
    using long by (rule number_lines_take_200)
  have rf: "read_file (cwd s) (files s) (getWorkspaceRoot (cwd s) ctx) args =
            Inr (JObj [(''file'', JStr p),
                       (''content'', JStr (join [newline] (number_lines 0 (take 200 ?lines)))),
                       (''totalLines'', JNum (int (length ?lines))),
                       (''showing'', JStr ''1-200''),
                       (''note'', JStr (''File has '' @ show_nat (length ?lines) @
                          '' lines. Showing first 200. Use offset/limit args to read more.''))])"
    using path inside readable no_offset no_limit long js_slice_take [of 200 ?lines]
    by (simp add: read_file_def Let_def MAX_LINES_AUTO_def show_nat_200)
  have run: "runTool s ''read_file'' args ctx =
             (read_file (cwd s) (files s) (getWorkspaceRoot (cwd s) ctx) args, files s)"
    using withPermission_granted [of "permissions s" "''read_file''" ctx] never ask
    by (simp add: runTool_def Let_def)
  have nn: "\<forall>x \<in> set (number_lines 0 (take 200 ?lines)). newline \<notin> set x"
    by (rule number_lines_no_newline) (auto dest: in_set_takeD split_lines_pieces)
  have ne: "?out \<noteq> []" by simp
  have sp: "split_lines (join [newline] ?out) = ?out"
    using nn unfolding nl by (rule split_lines_join [OF ne])
  have r: "runTool s ''read_file'' args ctx =
           (Inr (JObj [(''file'', JStr p),
                       (''content'', JStr (join [newline] ?out)),
                       (''totalLines'', JNum (int (length ?lines))),
                       (''showing'', JStr ''1-200''),
                       (''note'', JStr (''File has '' @ show_nat (length ?lines) @
                          '' lines. Showing first 200. Use offset/limit args to read more.''))]),
            files s)"
    unfolding run rf nl ..
  have len: "length (split_lines (join [newline] ?out)) = 200"
    unfolding sp by simp
  show ?thesis using r sp len by (intro conjI)
qed

lemma split_on_replicate: "split_on c (replicate n c) = replicate (Suc n) []"
  by (induction n) auto

lemma alpha_beta_lines:
  "split_lines (''alpha'' @ [newline] @ ''beta'' @ replicate 199 newline)
   = ''alpha'' # ''beta'' # replicate 199 []"
proof -
  have "split_lines (''alpha'' @ [newline] @ ''beta'' @ replicate 199 newline)
        = split_on newline ''alpha'' @ split_on newline (''beta'' @ newline # replicate 198 newline)"
    unfolding split_lines_def using split_on_append [of newline "''alpha''" "''beta'' @ replicate 199 newline"]
    by (simp add: numeral_eq_Suc)
  also have "split_on newline (''beta'' @ newline # replicate 198 newline)
        = split_on newline ''beta'' @ split_on newline (replicate 198 newline)"
    by (rule split_on_append)
  also have "split_on newline ''alpha'' = [''alpha'']" by (simp add: newline_def)
  also have "split_on newline ''beta'' = [''beta'']" by (simp add: newline_def)
  also have "split_on newline (replicate 198 newline) = replicate 199 []"
    using split_on_replicate [of newline 198] by simp
  finally show ?thesis by simp
qed

theorem read_file_auto_paginates_witness:
  "length (split_lines (''alpha'' @ [newline] @ ''beta'' @ replicate 199 newline)) = 201
   \<and> runTool \<lparr>cwd = ''/srv'', permissions = Map.empty,
               files = [''/home/u/proj/big.txt'' \<mapsto> ''alpha'' @ [newline] @ ''beta'' @ replicate 199 newline]\<rparr>
        ''read_file'' (JObj [(''path'', JStr ''big.txt'')])
        \<lparr>ctx_workspaceRoot = Some ''/home/u/proj'', ctx_autoMode = False\<rparr>
     = (Inr (JObj [(''file'', JStr ''big.txt''),
                   (''content'', JStr (join [newline]
                       ([''1|alpha'', ''2|beta''] @ map (\<lambda>i. show_nat (Suc i) @ ''|'') [2..<200]))),
                   (''totalLines'', JNum 201),
                   (''showing'', JStr ''1-200''),
                   (''note'', JStr ''File has 201 lines. Showing first 200. Use offset/limit args to read more.'')]),
        [''/home/u/proj/big.txt'' \<mapsto> ''alpha'' @ [newline] @ ''beta'' @ replicate 199 newline])
   \<and> split_lines (join [newline]
        ([''1|alpha'', ''2|beta''] @ map (\<lambda>i. show_nat (Suc i) @ ''|'') [2..<200]))
      = [''1|alpha'', ''2|beta''] @ map (\<lambda>i. show_nat (Suc i) @ ''|'') [2..<200]"
proof -
  let ?body = "''alpha'' @ [newline] @ ''beta'' @ replicate 199 newline"
  let ?s = "\<lparr>cwd = ''/srv'', permissions = Map.empty,
               files = [''/home/u/proj/big.txt'' \<mapsto> ?body]\<rparr>"
  let ?ctx = "\<lparr>ctx_workspaceRoot = Some ''/home/u/proj'', ctx_autoMode = False\<rparr>"
  let ?args = "JObj [(''path'', JStr ''big.txt'')]"
  let ?lines = "''alpha'' # ''beta'' # replicate 199 []"
  have len: "length (split_lines ?body) = 201"
    unfolding alpha_beta_lines by simp
  have h1: "permissions ?s ''read_file'' \<noteq> Some ''never''" by simp
  have h2: "ctx_autoMode ?ctx \<or> permissions ?s ''read_file'' \<noteq> Some ''ask''" by simp
  have h3: "jget ?args ''path'' = Some (JStr ''big.txt'')" by simp
  have h4: "resolvePath (cwd ?s) ''big.txt'' (getWorkspaceRoot (cwd ?s) ?ctx) = Inr ''/home/u/proj/big.txt''"
    by (simp add: resolvePath_def getWorkspaceRoot_def path_resolve_def)
  have h5: "files ?s ''/home/u/proj/big.txt'' = Some ?body" by simp
  have h6: "\<not> truthy (jget ?args ''offset'')" by simp
  have h7: "\<not> truthy (jget ?args ''limit'')" by simp
  have h8: "length (split_lines ?body) > 200" using len by simp
  have s201: "show_nat 201 = ''201''" by (simp add: show_nat.simps digit_char_def)
  have s12: "show_nat (Suc 0) = ''1''" "show_nat (Suc (Suc 0)) = ''2''"
    by (simp_all add: show_nat.simps digit_char_def)
  have u0: "[0..<200] = 0 # [Suc 0..<200]" by (rule upt_conv_Cons) simp
  have u1: "[Suc 0..<200] = Suc 0 # [Suc (Suc 0)..<200]" by (rule upt_conv_Cons) simp
  have u2: "Suc (Suc 0) = 2" by simp
  have up: "[0..<200] = 0 # Suc 0 # [2..<200]"
    unfolding u0 u1 u2 ..
  have rest: "map (\<lambda>i. show_nat (Suc i) @ ''|'' @ ?lines ! i) [2..<200]
              = map (\<lambda>i. show_nat (Suc i) @ ''|'') [2..<200]"
  proof (rule map_cong [OF refl])
    fix i assume "i \<in> set [2..<200]"
    then have "i \<in> {2..<200}" by (simp only: set_upt)
    then have i: "2 \<le> i" "i < 200" by (simp_all only: atLeastLessThan_iff)
    then obtain j where j: "i = Suc (Suc j)" "j < 199"
      by (cases i; cases "i - 1") auto
    show "show_nat (Suc i) @ ''|'' @ ?lines ! i = show_nat (Suc i) @ ''|''"
      unfolding j using j(2) by simp
  qed
  have out: "map (\<lambda>i. show_nat (Suc i) @ ''|'' @ split_lines ?body ! i) [0..<200]
             = [''1|alpha'', ''2|beta''] @ map (\<lambda>i. show_nat (Suc i) @ ''|'') [2..<200]"
    unfolding alpha_beta_lines up using rest by (simp add: s12 del: upt_rec_numeral)
  note spec = read_file_auto_paginates [OF h1 h2 h3 h4 h5 h6 h7 h8]
  show ?thesis
    using spec len unfolding out by (simp add: s201 del: upt_rec_numeral)
qed

section \<open>Smart truncation\<close>

text \<open>
  Claim C7. \<^verbatim>\<open>smartTruncate\<close> is meant to keep the first 70 percent and the last 20
  percent of the maximum. For a maximum below 5 the tail size is 0 and
  \<^verbatim>\<open>text.slice(-0)\<close> is the whole text: on \<^verbatim>\<open>abcdefgh\<close> with maximum 4 the result
  is the head \<^verbatim>\<open>ab\<close>, a separator announcing 6 omitted characters, and then all
  eight characters of the input instead of the last 0.
\<close>

theorem smartTruncate_tail_of_size_zero_is_whole_text:
  "smartTruncate ''abcdefgh'' 4 =
     ''ab'' @ [newline, newline] @ ''... [6 characters omitted] ...'' @ [newline, newline] @ ''abcdefgh''"
  by (simp add: smartTruncate_def floor_mul_0_7_def floor_mul_0_2_def round53_def bitlen.simps
      Let_def js_slice_def js_slice_from_def omitted_separator_def show_int_def show_nat.simps
      digit_char_def)

section \<open>Path confinement in the tool runner\<close>

text \<open>
  Claim C1. \<^verbatim>\<open>resolvePath\<close> of the tool runner compares string prefixes without a
  separator, so a directory beside the workspace root whose name extends the root's name
  passes the check: with the root \<^verbatim>\<open>/home/u/proj\<close>, \<^verbatim>\<open>read_file\<close> on
  \<^verbatim>\<open>../proj-secrets/key.txt\<close> resolves to \<^verbatim>\<open>/home/u/proj-secrets/key.txt\<close>, which
  is outside the root, and returns that file's content.
\<close>

theorem runTool_accepts_sibling_directory:
  "runTool \<lparr>cwd = ''/srv'', permissions = Map.empty,
            files = [''/home/u/proj-secrets/key.txt'' \<mapsto> ''TOKEN'']\<rparr>
     ''read_file'' (JObj [(''path'', JStr ''../proj-secrets/key.txt'')])
     \<lparr>ctx_workspaceRoot = Some ''/home/u/proj'', ctx_autoMode = True\<rparr>
   = (Inr (JObj [(''file'', JStr ''../proj-secrets/key.txt''), (''content'', JStr ''1|TOKEN''),
                 (''totalLines'', JNum 1)]),
      [''/home/u/proj-secrets/key.txt'' \<mapsto> ''TOKEN''])
   \<and> path_resolve ''/srv'' [''/home/u/proj'', ''../proj-secrets/key.txt''] = ''/home/u/proj-secrets/key.txt''
   \<and> \<not> inside_root ''/home/u/proj'' ''/home/u/proj-secrets/key.txt''"
  by (simp add: runTool_def getWorkspaceRoot_def withPermission_def read_file_def resolvePath_def
      path_resolve_def split_lines_def newline_def MAX_LINES_AUTO_def number_lines_def
      show_nat.simps digit_char_def inside_root_def)

text \<open>The same path is written by \<^verbatim>\<open>write_file\<close>.\<close>

lemma runTool_writes_sibling_directory:
  "runTool \<lparr>cwd = ''/srv'', permissions = Map.empty, files = Map.empty\<rparr>
     ''write_file'' (JObj [(''path'', JStr ''../proj-secrets/key.txt''), (''content'', JStr ''x'')])
     \<lparr>ctx_workspaceRoot = Some ''/home/u/proj'', ctx_autoMode = True\<rparr>
   = (Inr (JObj [(''ok'', JBool True), (''message'', JStr ''Wrote ../proj-secrets/key.txt'')]),
      [''/home/u/proj-secrets/key.txt'' \<mapsto> ''x''])"
  by (simp add: runTool_def getWorkspaceRoot_def withPermission_def write_file_def resolvePath_def
      path_resolve_def)

text \<open>
  The engine's \<^verbatim>\<open>resolvePathInWorkspace\<close> compares with the root followed by a
  separator: it rejects that path, and whatever it accepts is inside the root.
\<close>

lemma resolvePathInWorkspace_rejects_sibling_directory:
  "resolvePathInWorkspace ''/srv'' (Some ''/home/u/proj'') ''../proj-secrets/key.txt''
     = Inl (Security_error ''../proj-secrets/key.txt'')"
  by (simp add: resolvePathInWorkspace_def path_resolve_def strip_leading_slashes_def)

lemma resolvePathInWorkspace_confined:
  "resolvePathInWorkspace wd ws p = Inr r \<Longrightarrow>
   inside_root (path_resolve wd [case ws of None \<Rightarrow> wd | Some r \<Rightarrow> if r = [] then wd else r]) r"
  by (auto simp: resolvePathInWorkspace_def Let_def inside_root_def split: if_splits)

text \<open>
  With a positive tail size the result has the intended shape, and a text within the
  maximum is returned as it is.
\<close>

lemma smartTruncate_short: "length s \<le> m \<Longrightarrow> smartTruncate s m = s"
  by (simp add: smartTruncate_def)

lemma smartTruncate_long:
  "m < length s \<Longrightarrow> 0 < floor_mul_0_2 m \<Longrightarrow>
   smartTruncate s m =
     take (floor_mul_0_7 m) s
     @ omitted_separator (int (length s) - int (floor_mul_0_7 m) - int (floor_mul_0_2 m))
     @ drop (length s - floor_mul_0_2 m) s"
  by (auto simp: smartTruncate_def Let_def js_slice_def js_slice_from_def min_def max_def nat_diff_distrib)

section \<open>Conversation compaction\<close>

lemma js_slice_from_drop: "n \<le> length xs \<Longrightarrow> js_slice_from (int n) xs = drop n xs"
  by (auto simp: js_slice_from_def js_slice_def Let_def min_def)

text \<open>
  Claim C4. Whenever \<^verbatim>\<open>compactConversation\<close> reports \<^verbatim>\<open>compacted = true\<close>, the
  result is no longer than the input (it has six messages), its first message is the
  first message of the input, its second message is the assistant-role summary, and the
  rest is the last four messages of the input, verbatim and in order.
\<close>

theorem compactConversation_keeps_last_four:
  assumes "cr_compacted (compactConversation callLLM msgs)"
  shows "length (cr_messages (compactConversation callLLM msgs)) \<le> length msgs
       \<and> cr_messages (compactConversation callLLM msgs) ! 0 = msgs ! 0
       \<and> role (cr_messages (compactConversation callLLM msgs) ! 1) = ''assistant''
       \<and> drop 2 (cr_messages (compactConversation callLLM msgs)) = drop (length msgs - 4) msgs
       \<and> length (drop 2 (cr_messages (compactConversation callLLM msgs))) = 4
       \<and> length (cr_messages (compactConversation callLLM msgs)) = 6"
proof -
  have long: "length msgs > 3"
    using assms by (auto simp: compactConversation_def split: if_splits)
  then obtain sys rest where m: "msgs = sys # rest" by (cases msgs) auto
  have keep: "min 4 (length rest) \<le> length rest" by simp
  have tc: "js_slice 0 (int (length rest - min 4 (length rest))) rest = take (length rest - min 4 (length rest)) rest"
    by (rule js_slice_take)
  have tk: "js_slice_from (int (length rest - min 4 (length rest))) rest = drop (length rest - min 4 (length rest)) rest"
    by (rule js_slice_from_drop) simp
  have cc: "compactConversation callLLM (sys # rest) =
     (if length (sys # rest) \<le> 3
      then \<lparr>cr_messages = sys # rest, cr_compacted = False, cr_removedCount = None\<rparr>
      else if length (take (length rest - min 4 (length rest)) rest) < 2
      then \<lparr>cr_messages = sys # rest, cr_compacted = False, cr_removedCount = None\<rparr>
      else \<lparr>cr_messages = sys # cr_messages (compactConversation callLLM (sys # rest)) ! 1
                      # drop (length rest - min 4 (length rest)) rest,
            cr_compacted = True,
            cr_removedCount = Some (length (take (length rest - min 4 (length rest)) rest))\<rparr>)"
    unfolding compactConversation_def Let_def list.sel tc tk by simp
  have role1: "cr_compacted (compactConversation callLLM (sys # rest)) \<Longrightarrow>
               role (cr_messages (compactConversation callLLM (sys # rest)) ! 1) = ''assistant''"
    unfolding compactConversation_def Let_def list.sel tc tk by (auto simp: min_def split: if_splits)
  have six: "length rest \<ge> 6"
    using assms unfolding m by (subst (asm) cc) (auto split: if_splits)
  then have k4: "min 4 (length rest) = 4" by simp
  have r1: "cr_messages (compactConversation callLLM msgs)
             = sys # cr_messages (compactConversation callLLM msgs) ! 1 # drop (length rest - 4) rest"
    unfolding m by (subst cc) (use six k4 in simp)
  have d: "drop (length msgs - 4) msgs = drop (length rest - 4) rest"
    unfolding m using six by (simp add: Suc_diff_le drop_Cons')
  have l6: "length (cr_messages (compactConversation callLLM msgs)) = 6"
    by (subst r1) (use six in simp)
  have d2: "drop 2 (cr_messages (compactConversation callLLM msgs)) = drop (length rest - 4) rest"
    by (subst r1) simp
  have h0: "cr_messages (compactConversation callLLM msgs) ! 0 = msgs ! 0"
    by (subst r1) (simp add: m)
  have len: "length msgs \<ge> 7" unfolding m using six by simp
  have l4: "length (drop (length rest - 4) rest) = 4" using six by simp
  show ?thesis
    using role1 assms l6 d2 d h0 len l4 unfolding m by simp
qed

theorem compactConversation_keeps_last_four_witness:
  "cr_compacted (compactConversation (\<lambda>p. LLM_text ''- asked to rename foo'')
      [\<lparr>role = ''system'', content = ''prompt''\<rparr>, \<lparr>role = ''user'', content = ''rename foo''\<rparr>,
       \<lparr>role = ''assistant'', content = ''a1''\<rparr>, \<lparr>role = ''tool'', content = ''t1''\<rparr>,
       \<lparr>role = ''assistant'', content = ''a2''\<rparr>, \<lparr>role = ''tool'', content = ''t2''\<rparr>,
       \<lparr>role = ''assistant'', content = ''a3''\<rparr>])
   \<and> drop 2 (cr_messages (compactConversation (\<lambda>p. LLM_text ''- asked to rename foo'')
      [\<lparr>role = ''system'', content = ''prompt''\<rparr>, \<lparr>role = ''user'', content = ''rename foo''\<rparr>,
       \<lparr>role = ''assistant'', content = ''a1''\<rparr>, \<lparr>role = ''tool'', content = ''t1''\<rparr>,
       \<lparr>role = ''assistant'', content = ''a2''\<rparr>, \<lparr>role = ''tool'', content = ''t2''\<rparr>,
       \<lparr>role = ''assistant'', content = ''a3''\<rparr>]))
     = [\<lparr>role = ''tool'', content = ''t1''\<rparr>,
        \<lparr>role = ''assistant'', content = ''a2''\<rparr>, \<lparr>role = ''tool'', content = ''t2''\<rparr>,
        \<lparr>role = ''assistant'', content = ''a3''\<rparr>]
   \<and> length (cr_messages (compactConversation (\<lambda>p. LLM_text ''- asked to rename foo'')
      [\<lparr>role = ''system'', content = ''prompt''\<rparr>, \<lparr>role = ''user'', content = ''rename foo''\<rparr>,
       \<lparr>role = ''assistant'', content = ''a1''\<rparr>, \<lparr>role = ''tool'', content = ''t1''\<rparr>,
       \<lparr>role = ''assistant'', content = ''a2''\<rparr>, \<lparr>role = ''tool'', content = ''t2''\<rparr>,
       \<lparr>role = ''assistant'', content = ''a3''\<rparr>])) = 6"
proof -
  let ?ms = "[\<lparr>role = ''system'', content = ''prompt''\<rparr>, \<lparr>role = ''user'', content = ''rename foo''\<rparr>,
       \<lparr>role = ''assistant'', content = ''a1''\<rparr>, \<lparr>role = ''tool'', content = ''t1''\<rparr>,
       \<lparr>role = ''assistant'', content = ''a2''\<rparr>, \<lparr>role = ''tool'', content = ''t2''\<rparr>,
       \<lparr>role = ''assistant'', content = ''a3''\<rparr>]"
  have h: "cr_compacted (compactConversation (\<lambda>p. LLM_text ''- asked to rename foo'') ?ms)"
    by (simp add: compactConversation_def Let_def js_slice_def js_slice_from_def)
  show ?thesis
    using compactConversation_keeps_last_four [OF h] h by simp
qed

section \<open>Truncation of tool results\<close>

lemma show_nat_length: "0 < k \<Longrightarrow> n < 10 ^ k \<Longrightarrow> length (show_nat n) \<le> k"
proof (induction n arbitrary: k rule: show_nat.induct)
  case (1 n)
  show ?case
  proof (cases "n < 10")
    case True
    then show ?thesis using 1 by (subst show_nat.simps) simp
  next
    case False
    then obtain j where k: "k = Suc j" using "1.prems" by (cases k) auto
    have "j > 0" using False "1.prems" k by (cases j) auto
    moreover have "n div 10 < 10 ^ j" using "1.prems" k by (simp add: less_mult_imp_div_less mult.commute)
    ultimately have "length (show_nat (n div 10)) \<le> j" using "1.IH" False by simp
    then show ?thesis using False k by (subst show_nat.simps) simp
  qed
qed

lemma js_string_bound: "(2::nat) ^ 53 < 10 ^ 16"
  by simp

lemma omitted_separator_length:
  "0 \<le> n \<Longrightarrow> n < 2 ^ 53 \<Longrightarrow> length (omitted_separator n) \<le> 49"
proof -
  assume n: "0 \<le> n" "n < 2 ^ 53"
  have "n < 10 ^ 16" using n by simp
  then have "nat n < 10 ^ 16" using n by (simp add: nat_less_iff)
  then have "length (show_nat (nat n)) \<le> 16" by (intro show_nat_length) simp_all
  then show ?thesis using n by (simp add: omitted_separator_def show_int_def)
qed

lemma smartTruncate_length:
  assumes ht: "floor_mul_0_7 m + floor_mul_0_2 m \<le> m" and t: "0 < floor_mul_0_2 m"
      and len: "length s < 2 ^ 53" and long: "m < length s"
  shows "length (smartTruncate s m) \<le> floor_mul_0_7 m + floor_mul_0_2 m + 49"
proof -
  let ?h = "floor_mul_0_7 m" and ?t = "floor_mul_0_2 m"
  have om: "length (omitted_separator (int (length s) - int ?h - int ?t)) \<le> 49"
    using ht long len by (intro omitted_separator_length) auto
  have hd: "length (js_slice 0 (int ?h) s) \<le> ?h" by (simp add: js_slice_def Let_def)
  have tl: "length (js_slice_from (- int ?t) s) \<le> ?t"
    using t by (auto simp: js_slice_from_def js_slice_def Let_def)
  show ?thesis using long om hd tl by (simp add: smartTruncate_def Let_def)
qed

lemma floor_mul_values:
  "floor_mul_0_7 4000 = 2800" "floor_mul_0_2 4000 = 800"
  "floor_mul_0_7 2000 = 1400" "floor_mul_0_2 2000 = 400"
  "floor_mul_0_7 1000 = 700" "floor_mul_0_2 1000 = 200"
  by (simp_all add: floor_mul_0_7_def floor_mul_0_2_def round53_def bitlen.simps Let_def)

lemma smartTruncate_4000: "length s < 2 ^ 53 \<Longrightarrow> 4000 < length s \<Longrightarrow> length (smartTruncate s 4000) \<le> 4000"
  using smartTruncate_length [of 4000 s] by (simp add: floor_mul_values)

lemma smartTruncate_2000: "length s < 2 ^ 53 \<Longrightarrow> 2000 < length s \<Longrightarrow> length (smartTruncate s 2000) \<le> 2000"
  using smartTruncate_length [of 2000 s] by (simp add: floor_mul_values)

lemma smartTruncate_1000: "length s < 2 ^ 53 \<Longrightarrow> 1000 < length s \<Longrightarrow> length (smartTruncate s 1000) \<le> 1000"
  using smartTruncate_length [of 1000 s] by (simp add: floor_mul_values)

lemma string_stage:
  "map_of (case map_of al k of
             Some (JStr c) \<Rightarrow> if length c > lim then AList.update k (JStr (f c)) al else al
           | _ \<Rightarrow> al) k' =
   (if k' = k then (case map_of al k of
                      Some (JStr c) \<Rightarrow> Some (JStr (if length c > lim then f c else c))
                    | v \<Rightarrow> v)
    else map_of al k')"
  by (auto simp: update_conv' split: option.splits json.splits)

lemma array_stage:
  "map_of (case map_of al k of
             Some (JArr xs) \<Rightarrow> if length xs > lim then AList.update k (JArr (f xs)) al else al
           | _ \<Rightarrow> al) k' =
   (if k' = k then (case map_of al k of
                      Some (JArr xs) \<Rightarrow> Some (JArr (if length xs > lim then f xs else xs))
                    | v \<Rightarrow> v)
    else map_of al k')"
  by (auto simp: update_conv' split: option.splits json.splits)

lemma matches_stage:
  "map_of (case map_of al ''matches'' of
             Some (JArr ms) \<Rightarrow> if length ms > 30
                then AList.update ''truncated'' (JStr (g ms)) (AList.update ''matches'' (JArr (f ms)) al)
                else al
           | _ \<Rightarrow> al) k' =
   (case map_of al ''matches'' of
      Some (JArr ms) \<Rightarrow>
        if length ms > 30
        then (if k' = ''truncated'' then Some (JStr (g ms))
              else if k' = ''matches'' then Some (JArr (f ms)) else map_of al k')
        else map_of al k'
    | _ \<Rightarrow> map_of al k')"
  by (auto simp: update_conv' split: option.splits json.splits)

lemma map_of_Some_key: "map_of al k = Some v \<Longrightarrow> k \<in> fst ` set al"
  by (metis map_of_eq_None_iff option.distinct(1))

lemma string_stage_keys:
  "map fst (case map_of al k of
             Some (JStr c) \<Rightarrow> if length c > lim then AList.update k (JStr (f c)) al else al
           | _ \<Rightarrow> al) = map fst al"
  by (auto simp: update_keys split: option.splits json.splits dest: map_of_Some_key)

lemma array_stage_keys:
  "map fst (case map_of al k of
             Some (JArr xs) \<Rightarrow> if length xs > lim then AList.update k (JArr (f xs)) al else al
           | _ \<Rightarrow> al) = map fst al"
  by (auto simp: update_keys split: option.splits json.splits dest: map_of_Some_key)

lemma matches_stage_keys:
  "map fst (case map_of al ''matches'' of
             Some (JArr ms) \<Rightarrow> if length ms > 30
                then AList.update ''truncated'' (JStr (g ms)) (AList.update ''matches'' (JArr (f ms)) al)
                else al
           | _ \<Rightarrow> al) =
   map fst al @ (if (case map_of al ''matches'' of Some (JArr ms) \<Rightarrow> 30 < length ms | _ \<Rightarrow> False)
                    \<and> ''truncated'' \<notin> set (map fst al)
                 then [''truncated''] else [])"
  by (auto simp: update_keys split: option.splits json.splits dest: map_of_Some_key)

lemma truncate_clone_spec:
  "\<exists>clone.
      truncate_clone kvs =
        (if length (json_stringify (JObj clone)) \<le> 3500 then JObj clone
         else JStr (smartTruncate (json_stringify (JObj clone)) 3000))
    \<and> map fst clone = map fst kvs @
          (if (case map_of kvs ''matches'' of Some (JArr ms) \<Rightarrow> 30 < length ms | _ \<Rightarrow> False)
              \<and> ''truncated'' \<notin> set (map fst kvs)
           then [''truncated''] else [])
    \<and> map_of clone ''content'' =
          (case map_of kvs ''content'' of
             Some (JStr c) \<Rightarrow> Some (JStr (if 4000 < length c then smartTruncate c 4000 else c))
           | v \<Rightarrow> v)
    \<and> map_of clone ''stdout'' =
          (case map_of kvs ''stdout'' of
             Some (JStr c) \<Rightarrow> Some (JStr (if 2000 < length c then smartTruncate c 2000 else c))
           | v \<Rightarrow> v)
    \<and> map_of clone ''stderr'' =
          (case map_of kvs ''stderr'' of
             Some (JStr c) \<Rightarrow> Some (JStr (if 1000 < length c then smartTruncate c 1000 else c))
           | v \<Rightarrow> v)
    \<and> map_of clone ''files'' =
          (case map_of kvs ''files'' of
             Some (JArr fs) \<Rightarrow>
               Some (JArr (if 80 < length fs
                           then take 80 fs @ [JStr (''... and '' @ show_nat (length fs - 80) @ '' more files'')]
                           else fs))
           | v \<Rightarrow> v)
    \<and> map_of clone ''matches'' =
          (case map_of kvs ''matches'' of
             Some (JArr ms) \<Rightarrow> Some (JArr (take 30 ms))
           | v \<Rightarrow> v)
    \<and> map_of clone ''truncated'' =
          (case map_of kvs ''matches'' of
             Some (JArr ms) \<Rightarrow>
               if 30 < length ms
               then Some (JStr (''Showing 30 of '' @ show_nat (length ms) @ '' matches''))
               else map_of kvs ''truncated''
           | _ \<Rightarrow> map_of kvs ''truncated'')
    \<and> (\<forall>k. k \<notin> {''content'', ''stdout'', ''stderr'', ''files'', ''matches'', ''truncated''}
            \<longrightarrow> map_of clone k = map_of kvs k)"
proof -
  define c1 where "c1 = (case map_of kvs ''content'' of
                      Some (JStr c) \<Rightarrow>
                        if length c > MAX_FILE_CONTENT_CHARS
                        then AList.update ''content'' (JStr (smartTruncate c MAX_FILE_CONTENT_CHARS)) kvs
                        else kvs
                    | _ \<Rightarrow> kvs)"
  define c2 where "c2 = (case map_of c1 ''stdout'' of
                      Some (JStr c) \<Rightarrow>
                        if length c > 2000
                        then AList.update ''stdout'' (JStr (smartTruncate c 2000)) c1
                        else c1
                    | _ \<Rightarrow> c1)"
  define c3 where "c3 = (case map_of c2 ''stderr'' of
                      Some (JStr c) \<Rightarrow>
                        if length c > 1000
                        then AList.update ''stderr'' (JStr (smartTruncate c 1000)) c2
                        else c2
                    | _ \<Rightarrow> c2)"
  define c4 where "c4 = (case map_of c3 ''files'' of
                      Some (JArr fs) \<Rightarrow>
                        if length fs > 80
                        then AList.update ''files''
                               (JArr (js_slice 0 80 fs @
                                  [JStr (''... and '' @ show_nat (length fs - 80) @ '' more files'')]))
                               c3
                        else c3
                    | _ \<Rightarrow> c3)"
  define c5 where "c5 = (case map_of c4 ''matches'' of
                      Some (JArr ms) \<Rightarrow>
                        if length ms > 30
                        then AList.update ''truncated''
                               (JStr (''Showing 30 of '' @ show_nat (length ms) @ '' matches''))
                               (AList.update ''matches'' (JArr (js_slice 0 30 ms)) c4)
                        else c4
                    | _ \<Rightarrow> c4)"
  have tc: "truncate_clone kvs =
        (if length (json_stringify (JObj c5)) \<le> MAX_TOOL_RESULT_CHARS + 500 then JObj c5
         else JStr (smartTruncate (json_stringify (JObj c5)) MAX_TOOL_RESULT_CHARS))"
    unfolding truncate_clone_def Let_def c5_def c4_def c3_def c2_def c1_def ..
  have m1: "\<And>k'. map_of c1 k' =
      (if k' = ''content'' then (case map_of kvs ''content'' of
          Some (JStr c) \<Rightarrow> Some (JStr (if length c > MAX_FILE_CONTENT_CHARS then smartTruncate c MAX_FILE_CONTENT_CHARS else c))
        | v \<Rightarrow> v) else map_of kvs k')"
    unfolding c1_def by (rule string_stage)
  have m2: "\<And>k'. map_of c2 k' =
      (if k' = ''stdout'' then (case map_of c1 ''stdout'' of
          Some (JStr c) \<Rightarrow> Some (JStr (if length c > 2000 then smartTruncate c 2000 else c))
        | v \<Rightarrow> v) else map_of c1 k')"
    unfolding c2_def by (rule string_stage)
  have m3: "\<And>k'. map_of c3 k' =
      (if k' = ''stderr'' then (case map_of c2 ''stderr'' of
          Some (JStr c) \<Rightarrow> Some (JStr (if length c > 1000 then smartTruncate c 1000 else c))
        | v \<Rightarrow> v) else map_of c2 k')"
    unfolding c3_def by (rule string_stage)
  have m4: "\<And>k'. map_of c4 k' =
      (if k' = ''files'' then (case map_of c3 ''files'' of
          Some (JArr fs) \<Rightarrow> Some (JArr (if length fs > 80 then js_slice 0 80 fs @
                                  [JStr (''... and '' @ show_nat (length fs - 80) @ '' more files'')] else fs))
        | v \<Rightarrow> v) else map_of c3 k')"
    unfolding c4_def by (rule array_stage)
  have m5: "\<And>k'. map_of c5 k' =
      (case map_of c4 ''matches'' of
         Some (JArr ms) \<Rightarrow>
           if length ms > 30
           then (if k' = ''truncated'' then Some (JStr (''Showing 30 of '' @ show_nat (length ms) @ '' matches''))
                 else if k' = ''matches'' then Some (JArr (js_slice 0 30 ms)) else map_of c4 k')
           else map_of c4 k'
       | _ \<Rightarrow> map_of c4 k')"
    unfolding c5_def by (rule matches_stage)
  have k1: "map fst c1 = map fst kvs" unfolding c1_def by (rule string_stage_keys)
  have k2: "map fst c2 = map fst kvs" unfolding c2_def k1 [symmetric] by (rule string_stage_keys)
  have k3: "map fst c3 = map fst kvs" unfolding c3_def k2 [symmetric] by (rule string_stage_keys)
  have k4: "map fst c4 = map fst kvs" unfolding c4_def k3 [symmetric] by (rule array_stage_keys)
  have km: "map_of c4 ''matches'' = map_of kvs ''matches''" by (simp add: m4 m3 m2 m1)
  have k5: "map fst c5 = map fst kvs @
          (if (case map_of kvs ''matches'' of Some (JArr ms) \<Rightarrow> 30 < length ms | _ \<Rightarrow> False)
              \<and> ''truncated'' \<notin> set (map fst kvs)
           then [''truncated''] else [])"
    unfolding c5_def km [symmetric] k4 [symmetric] by (rule matches_stage_keys)
  have p0: "truncate_clone kvs =
        (if length (json_stringify (JObj c5)) \<le> 3500 then JObj c5
         else JStr (smartTruncate (json_stringify (JObj c5)) 3000))"
    using tc by (simp add: MAX_TOOL_RESULT_CHARS_def del: json_stringify.simps)
  have p_content: "map_of c5 ''content'' =
          (case map_of kvs ''content'' of
             Some (JStr c) \<Rightarrow> Some (JStr (if 4000 < length c then smartTruncate c 4000 else c))
           | v \<Rightarrow> v)"
    by (simp add: m5 m4 m3 m2 m1 km MAX_FILE_CONTENT_CHARS_def split: option.splits json.splits)
  have p_stdout: "map_of c5 ''stdout'' =
          (case map_of kvs ''stdout'' of
             Some (JStr c) \<Rightarrow> Some (JStr (if 2000 < length c then smartTruncate c 2000 else c))
           | v \<Rightarrow> v)"
    by (simp add: m5 m4 m3 m2 m1 km split: option.splits json.splits)
  have p_stderr: "map_of c5 ''stderr'' =
          (case map_of kvs ''stderr'' of
             Some (JStr c) \<Rightarrow> Some (JStr (if 1000 < length c then smartTruncate c 1000 else c))
           | v \<Rightarrow> v)"
    by (simp add: m5 m4 m3 m2 m1 km split: option.splits json.splits)
  have s80: "js_slice 0 80 xs = take 80 xs" for xs :: "json list"
    using js_slice_take [of 80 xs] by simp
  have s30: "js_slice 0 30 xs = take 30 xs" for xs :: "json list"
    using js_slice_take [of 30 xs] by simp
  have p_files: "map_of c5 ''files'' =
          (case map_of kvs ''files'' of
             Some (JArr fs) \<Rightarrow>
               Some (JArr (if 80 < length fs
                           then take 80 fs @ [JStr (''... and '' @ show_nat (length fs - 80) @ '' more files'')]
                           else fs))
           | v \<Rightarrow> v)"
    by (simp add: m5 m4 m3 m2 m1 km s80 split: option.splits json.splits)
  have p_matches: "map_of c5 ''matches'' =
          (case map_of kvs ''matches'' of
             Some (JArr ms) \<Rightarrow> Some (JArr (take 30 ms))
           | v \<Rightarrow> v)"
    by (simp add: m5 km s30 split: option.splits json.splits)
  have p_trunc: "map_of c5 ''truncated'' =
          (case map_of kvs ''matches'' of
             Some (JArr ms) \<Rightarrow>
               if 30 < length ms
               then Some (JStr (''Showing 30 of '' @ show_nat (length ms) @ '' matches''))
               else map_of kvs ''truncated''
           | _ \<Rightarrow> map_of kvs ''truncated'')"
    by (simp add: m5 m4 m3 m2 m1 km split: option.splits json.splits)
  have p_other: "\<forall>k. k \<notin> {''content'', ''stdout'', ''stderr'', ''files'', ''matches'', ''truncated''}
            \<longrightarrow> map_of c5 k = map_of kvs k"
    by (simp add: m5 m4 m3 m2 m1 km split: option.splits json.splits)
  show ?thesis
    using p0 k5 p_content p_stdout p_stderr p_files p_matches p_trunc p_other by blast
qed


lemma join_length:
  "length (join sep xs) = sum_list (map length xs) + (length xs - 1) * length sep"
proof (induction xs)
  case Nil
  then show ?case by simp
next
  case (Cons x xs)
  then show ?case by (cases xs) simp_all
qed

text \<open>
  Claim C5, as the code has it. An object result whose serialisation is within 3,000
  characters is returned unchanged. For a longer one, \<^verbatim>\<open>truncateToolResult\<close> builds
  a clone with the same keys in the same order (and the key \<^verbatim>\<open>truncated\<close> added at the
  end when it is set and was absent), in which a string \<^verbatim>\<open>content\<close> longer than
  4,000 characters is replaced by its smart truncation to 4,000, a string \<^verbatim>\<open>stdout\<close>
  longer than 2,000 by its smart truncation to 2,000, a string \<^verbatim>\<open>stderr\<close> longer than
  1,000 by its smart truncation to 1,000, an array \<^verbatim>\<open>files\<close> of more than 80 items
  by its first 80 items followed by the note \<^verbatim>\<open>... and N more files\<close>, an array
  \<^verbatim>\<open>matches\<close> of more than 30 items by its first 30 items, with \<^verbatim>\<open>truncated\<close>
  set to \<^verbatim>\<open>Showing 30 of N matches\<close>, and every other field is unchanged. The result
  is this clone when its serialisation has at most 3,500 characters, and otherwise the
  smart truncation to 3,000 characters of that serialisation, a string. In the clone
  (with strings of a length the language allows) a string \<^verbatim>\<open>content\<close> has at most
  4,000 characters, a string \<^verbatim>\<open>stdout\<close> at most 2,000, a string \<^verbatim>\<open>stderr\<close> at
  most 1,000, an array \<^verbatim>\<open>files\<close> at most 81 items and an array \<^verbatim>\<open>matches\<close> at
  most 30.
\<close>

theorem truncateToolResult_object:
  assumes strs: "\<forall>k x. map_of kvs k = Some (JStr x) \<longrightarrow> length x < 2 ^ 53"
  shows "(length (json_stringify (JObj kvs)) \<le> 3000 \<longrightarrow> truncateToolResult (JObj kvs) = JObj kvs)
       \<and> (3000 < length (json_stringify (JObj kvs)) \<longrightarrow>
            (\<exists>clone.
                truncateToolResult (JObj kvs) =
                  (if length (json_stringify (JObj clone)) \<le> 3500 then JObj clone
                   else JStr (smartTruncate (json_stringify (JObj clone)) 3000))
              \<and> map fst clone = map fst kvs @
                    (if (case map_of kvs ''matches'' of Some (JArr ms) \<Rightarrow> 30 < length ms | _ \<Rightarrow> False)
                        \<and> ''truncated'' \<notin> set (map fst kvs)
                     then [''truncated''] else [])
              \<and> map_of clone ''content'' =
                    (case map_of kvs ''content'' of
                       Some (JStr c) \<Rightarrow> Some (JStr (if 4000 < length c then smartTruncate c 4000 else c))
                     | v \<Rightarrow> v)
              \<and> map_of clone ''stdout'' =
                    (case map_of kvs ''stdout'' of
                       Some (JStr c) \<Rightarrow> Some (JStr (if 2000 < length c then smartTruncate c 2000 else c))
                     | v \<Rightarrow> v)
              \<and> map_of clone ''stderr'' =
                    (case map_of kvs ''stderr'' of
                       Some (JStr c) \<Rightarrow> Some (JStr (if 1000 < length c then smartTruncate c 1000 else c))
                     | v \<Rightarrow> v)
              \<and> map_of clone ''files'' =
                    (case map_of kvs ''files'' of
                       Some (JArr fs) \<Rightarrow>
                         Some (JArr (if 80 < length fs
                                     then take 80 fs @ [JStr (''... and '' @ show_nat (length fs - 80) @ '' more files'')]
                                     else fs))
                     | v \<Rightarrow> v)
              \<and> map_of clone ''matches'' =
                    (case map_of kvs ''matches'' of
                       Some (JArr ms) \<Rightarrow> Some (JArr (take 30 ms))
                     | v \<Rightarrow> v)
              \<and> map_of clone ''truncated'' =
                    (case map_of kvs ''matches'' of
                       Some (JArr ms) \<Rightarrow>
                         if 30 < length ms
                         then Some (JStr (''Showing 30 of '' @ show_nat (length ms) @ '' matches''))
                         else map_of kvs ''truncated''
                     | _ \<Rightarrow> map_of kvs ''truncated'')
              \<and> (\<forall>k. k \<notin> {''content'', ''stdout'', ''stderr'', ''files'', ''matches'', ''truncated''}
                      \<longrightarrow> map_of clone k = map_of kvs k)
              \<and> (\<forall>x. map_of clone ''content'' = Some (JStr x) \<longrightarrow> length x \<le> 4000)
              \<and> (\<forall>x. map_of clone ''stdout'' = Some (JStr x) \<longrightarrow> length x \<le> 2000)
              \<and> (\<forall>x. map_of clone ''stderr'' = Some (JStr x) \<longrightarrow> length x \<le> 1000)
              \<and> (\<forall>fs. map_of clone ''files'' = Some (JArr fs) \<longrightarrow> length fs \<le> 81)
              \<and> (\<forall>ms. map_of clone ''matches'' = Some (JArr ms) \<longrightarrow> length ms \<le> 30)))"
proof -
  have t: "truncateToolResult (JObj kvs) =
           (if length (json_stringify (JObj kvs)) \<le> 3000 then JObj kvs else truncate_clone kvs)"
    by (simp add: truncateToolResult_def MAX_TOOL_RESULT_CHARS_def del: json_stringify.simps)
  obtain clone where
        res: "truncate_clone kvs =
                (if length (json_stringify (JObj clone)) \<le> 3500 then JObj clone
                 else JStr (smartTruncate (json_stringify (JObj clone)) 3000))"
    and keys: "map fst clone = map fst kvs @
                    (if (case map_of kvs ''matches'' of Some (JArr ms) \<Rightarrow> 30 < length ms | _ \<Rightarrow> False)
                        \<and> ''truncated'' \<notin> set (map fst kvs)
                     then [''truncated''] else [])"
    and pc: "map_of clone ''content'' =
                    (case map_of kvs ''content'' of
                       Some (JStr c) \<Rightarrow> Some (JStr (if 4000 < length c then smartTruncate c 4000 else c))
                     | v \<Rightarrow> v)"
    and po: "map_of clone ''stdout'' =
                    (case map_of kvs ''stdout'' of
                       Some (JStr c) \<Rightarrow> Some (JStr (if 2000 < length c then smartTruncate c 2000 else c))
                     | v \<Rightarrow> v)"
    and pe: "map_of clone ''stderr'' =
                    (case map_of kvs ''stderr'' of
                       Some (JStr c) \<Rightarrow> Some (JStr (if 1000 < length c then smartTruncate c 1000 else c))
                     | v \<Rightarrow> v)"
    and pf: "map_of clone ''files'' =
                    (case map_of kvs ''files'' of
                       Some (JArr fs) \<Rightarrow>
                         Some (JArr (if 80 < length fs
                                     then take 80 fs @ [JStr (''... and '' @ show_nat (length fs - 80) @ '' more files'')]
                                     else fs))
                     | v \<Rightarrow> v)"
    and pm: "map_of clone ''matches'' =
                    (case map_of kvs ''matches'' of
                       Some (JArr ms) \<Rightarrow> Some (JArr (take 30 ms))
                     | v \<Rightarrow> v)"
    and pt: "map_of clone ''truncated'' =
                    (case map_of kvs ''matches'' of
                       Some (JArr ms) \<Rightarrow>
                         if 30 < length ms
                         then Some (JStr (''Showing 30 of '' @ show_nat (length ms) @ '' matches''))
                         else map_of kvs ''truncated''
                     | _ \<Rightarrow> map_of kvs ''truncated'')"
    and pk: "\<forall>k. k \<notin> {''content'', ''stdout'', ''stderr'', ''files'', ''matches'', ''truncated''}
                      \<longrightarrow> map_of clone k = map_of kvs k"
    using truncate_clone_spec [of kvs] by blast
  have bc: "\<forall>x. map_of clone ''content'' = Some (JStr x) \<longrightarrow> length x \<le> 4000"
  proof (intro allI impI)
    fix x assume a: "map_of clone ''content'' = Some (JStr x)"
    then obtain c where c: "map_of kvs ''content'' = Some (JStr c)"
        and x: "x = (if 4000 < length c then smartTruncate c 4000 else c)"
      unfolding pc by (auto split: option.splits json.splits)
    have "length c < 2 ^ 53" using strs c by blast
    then show "length x \<le> 4000" using x smartTruncate_4000 [of c] by (simp split: if_splits)
  qed
  have bo: "\<forall>x. map_of clone ''stdout'' = Some (JStr x) \<longrightarrow> length x \<le> 2000"
  proof (intro allI impI)
    fix x assume a: "map_of clone ''stdout'' = Some (JStr x)"
    then obtain c where c: "map_of kvs ''stdout'' = Some (JStr c)"
        and x: "x = (if 2000 < length c then smartTruncate c 2000 else c)"
      unfolding po by (auto split: option.splits json.splits)
    have "length c < 2 ^ 53" using strs c by blast
    then show "length x \<le> 2000" using x smartTruncate_2000 [of c] by (simp split: if_splits)
  qed
  have be: "\<forall>x. map_of clone ''stderr'' = Some (JStr x) \<longrightarrow> length x \<le> 1000"
  proof (intro allI impI)
    fix x assume a: "map_of clone ''stderr'' = Some (JStr x)"
    then obtain c where c: "map_of kvs ''stderr'' = Some (JStr c)"
        and x: "x = (if 1000 < length c then smartTruncate c 1000 else c)"
      unfolding pe by (auto split: option.splits json.splits)
    have "length c < 2 ^ 53" using strs c by blast
    then show "length x \<le> 1000" using x smartTruncate_1000 [of c] by (simp split: if_splits)
  qed
  have bf: "\<forall>fs. map_of clone ''files'' = Some (JArr fs) \<longrightarrow> length fs \<le> 81"
    unfolding pf by (auto split: option.splits json.splits if_splits)
  have bm: "\<forall>ms. map_of clone ''matches'' = Some (JArr ms) \<longrightarrow> length ms \<le> 30"
    unfolding pm by (auto split: option.splits json.splits)
  have big: "3000 < length (json_stringify (JObj kvs)) \<Longrightarrow>
             truncateToolResult (JObj kvs) =
                (if length (json_stringify (JObj clone)) \<le> 3500 then JObj clone
                 else JStr (smartTruncate (json_stringify (JObj clone)) 3000))"
    unfolding t res by (simp del: json_stringify.simps)
  have small: "length (json_stringify (JObj kvs)) \<le> 3000 \<Longrightarrow> truncateToolResult (JObj kvs) = JObj kvs"
    unfolding t by (simp del: json_stringify.simps)
  show ?thesis
  proof (intro conjI impI)
    assume "length (json_stringify (JObj kvs)) \<le> 3000"
    then show "truncateToolResult (JObj kvs) = JObj kvs" by (rule small)
  next
    assume l: "3000 < length (json_stringify (JObj kvs))"
    show "\<exists>clone.
                truncateToolResult (JObj kvs) =
                  (if length (json_stringify (JObj clone)) \<le> 3500 then JObj clone
                   else JStr (smartTruncate (json_stringify (JObj clone)) 3000))
              \<and> map fst clone = map fst kvs @
                    (if (case map_of kvs ''matches'' of Some (JArr ms) \<Rightarrow> 30 < length ms | _ \<Rightarrow> False)
                        \<and> ''truncated'' \<notin> set (map fst kvs)
                     then [''truncated''] else [])
              \<and> map_of clone ''content'' =
                    (case map_of kvs ''content'' of
                       Some (JStr c) \<Rightarrow> Some (JStr (if 4000 < length c then smartTruncate c 4000 else c))
                     | v \<Rightarrow> v)
              \<and> map_of clone ''stdout'' =
                    (case map_of kvs ''stdout'' of
                       Some (JStr c) \<Rightarrow> Some (JStr (if 2000 < length c then smartTruncate c 2000 else c))
                     | v \<Rightarrow> v)
              \<and> map_of clone ''stderr'' =
                    (case map_of kvs ''stderr'' of
                       Some (JStr c) \<Rightarrow> Some (JStr (if 1000 < length c then smartTruncate c 1000 else c))
                     | v \<Rightarrow> v)
              \<and> map_of clone ''files'' =
                    (case map_of kvs ''files'' of
                       Some (JArr fs) \<Rightarrow>
                         Some (JArr (if 80 < length fs
                                     then take 80 fs @ [JStr (''... and '' @ show_nat (length fs - 80) @ '' more files'')]
                                     else fs))
                     | v \<Rightarrow> v)
              \<and> map_of clone ''matches'' =
                    (case map_of kvs ''matches'' of
                       Some (JArr ms) \<Rightarrow> Some (JArr (take 30 ms))
                     | v \<Rightarrow> v)
              \<and> map_of clone ''truncated'' =
                    (case map_of kvs ''matches'' of
                       Some (JArr ms) \<Rightarrow>
                         if 30 < length ms
                         then Some (JStr (''Showing 30 of '' @ show_nat (length ms) @ '' matches''))
                         else map_of kvs ''truncated''
                     | _ \<Rightarrow> map_of kvs ''truncated'')
              \<and> (\<forall>k. k \<notin> {''content'', ''stdout'', ''stderr'', ''files'', ''matches'', ''truncated''}
                      \<longrightarrow> map_of clone k = map_of kvs k)
              \<and> (\<forall>x. map_of clone ''content'' = Some (JStr x) \<longrightarrow> length x \<le> 4000)
              \<and> (\<forall>x. map_of clone ''stdout'' = Some (JStr x) \<longrightarrow> length x \<le> 2000)
              \<and> (\<forall>x. map_of clone ''stderr'' = Some (JStr x) \<longrightarrow> length x \<le> 1000)
              \<and> (\<forall>fs. map_of clone ''files'' = Some (JArr fs) \<longrightarrow> length fs \<le> 81)
              \<and> (\<forall>ms. map_of clone ''matches'' = Some (JArr ms) \<longrightarrow> length ms \<le> 30)"
      by (rule exI [of _ clone], intro conjI)
         (rule big [OF l] keys pc po pe pf pm pt pk bc bo be bf bm)+
  qed
qed

lemma quote_m100:
  "json_quote (replicate 100 CHR ''m'') = [CHR 0x22] @ replicate 100 CHR ''m'' @ [CHR 0x22]"
proof -
  have "concat (map json_escape_char (replicate n CHR ''m'')) = replicate n CHR ''m''" for n
    by (induction n) (simp_all add: json_escape_char_def)
  then show ?thesis by (simp add: json_quote_def)
qed

lemma quote_match_words:
  "json_quote ''matches'' = [CHR 0x22] @ ''matches'' @ [CHR 0x22]"
  "json_quote ''truncated'' = [CHR 0x22] @ ''truncated'' @ [CHR 0x22]"
  "json_quote ''last kept'' = [CHR 0x22] @ ''last kept'' @ [CHR 0x22]"
  "json_quote ''Showing 30 of 40 matches'' = [CHR 0x22] @ ''Showing 30 of 40 matches'' @ [CHR 0x22]"
  by (simp_all add: json_quote_def json_escape_char_def)


lemma quote_x100:
  "json_quote (replicate 100 CHR ''x'') = [CHR 0x22] @ replicate 100 CHR ''x'' @ [CHR 0x22]"
proof -
  have "concat (map json_escape_char (replicate n CHR ''x'')) = replicate n CHR ''x''" for n
    by (induction n) (simp_all add: json_escape_char_def)
  then show ?thesis by (simp add: json_quote_def)
qed


theorem truncateToolResult_object_witness:
  "3000 < length (json_stringify (JObj [(''matches'',
       JArr (replicate 29 (JStr (replicate 100 CHR ''m'')) @ [JStr ''last kept'']
             @ replicate 10 (JStr (replicate 100 CHR ''x''))))]))
   \<and> truncateToolResult (JObj [(''matches'',
       JArr (replicate 29 (JStr (replicate 100 CHR ''m'')) @ [JStr ''last kept'']
             @ replicate 10 (JStr (replicate 100 CHR ''x''))))])
     = JObj [(''matches'', JArr (replicate 29 (JStr (replicate 100 CHR ''m'')) @ [JStr ''last kept''])),
             (''truncated'', JStr ''Showing 30 of 40 matches'')]"
proof -
  let ?ms = "replicate 29 (JStr (replicate 100 CHR ''m'')) @ [JStr ''last kept'']
             @ replicate 10 (JStr (replicate 100 CHR ''x''))"
  let ?kvs = "[(''matches'', JArr ?ms)]"
  let ?out = "[(''matches'', JArr (replicate 29 (JStr (replicate 100 CHR ''m'')) @ [JStr ''last kept''])),
             (''truncated'', JStr ''Showing 30 of 40 matches'')]"
  have h: "\<forall>k x. map_of ?kvs k = Some (JStr x) \<longrightarrow> length x < 2 ^ 53"
    by (simp split: if_splits)
  have l: "3000 < length (json_stringify (JObj ?kvs))"
    by (simp add: join_length quote_m100 quote_x100 quote_match_words sum_list_replicate)
  have n40: "show_nat 40 = ''40''" by (simp add: show_nat.simps digit_char_def)
  note spec = mp [OF conjunct2 [OF truncateToolResult_object [OF h]] l]
  have "\<exists>clone. truncateToolResult (JObj ?kvs) =
                (if length (json_stringify (JObj clone)) \<le> 3500 then JObj clone
                 else JStr (smartTruncate (json_stringify (JObj clone)) 3000))
        \<and> map fst clone = [''matches'', ''truncated'']
        \<and> map_of clone ''matches'' = Some (JArr (replicate 29 (JStr (replicate 100 CHR ''m'')) @ [JStr ''last kept'']))
        \<and> map_of clone ''truncated'' = Some (JStr ''Showing 30 of 40 matches'')"
    using spec
    apply (elim exE conjE)
    subgoal for clone
      by (rule exI [of _ clone]) (simp add: n40 del: json_stringify.simps)
    done
  then obtain clone where
        res: "truncateToolResult (JObj ?kvs) =
                (if length (json_stringify (JObj clone)) \<le> 3500 then JObj clone
                 else JStr (smartTruncate (json_stringify (JObj clone)) 3000))"
    and keys: "map fst clone = [''matches'', ''truncated'']"
    and pm: "map_of clone ''matches'' = Some (JArr (replicate 29 (JStr (replicate 100 CHR ''m'')) @ [JStr ''last kept'']))"
    and pt: "map_of clone ''truncated'' = Some (JStr ''Showing 30 of 40 matches'')"
    by (elim exE conjE)
  from keys obtain x y where cl: "clone = [(''matches'', x), (''truncated'', y)]"
    by (auto simp: map_eq_Cons_conv)
  have "clone = ?out" using pm pt unfolding cl by simp
  moreover have "length (json_stringify (JObj ?out)) \<le> 3500"
    by (simp add: join_length quote_m100 quote_match_words sum_list_replicate)
  ultimately have "truncateToolResult (JObj ?kvs) = JObj ?out"
    using res by (simp del: json_stringify.simps)
  then show ?thesis using l by simp
qed

lemma quote_file_name: "json_quote ''src/file.js'' = [CHR 0x22] @ ''src/file.js'' @ [CHR 0x22]"
  by (simp add: json_quote_def json_escape_char_def)

lemma quote_files_note: "json_quote ''... and 620 more files'' = [CHR 0x22] @ ''... and 620 more files'' @ [CHR 0x22]"
  by (simp add: json_quote_def json_escape_char_def)

lemma quote_files_key: "json_quote ''files'' = [CHR 0x22] @ ''files'' @ [CHR 0x22]"
  by (simp add: json_quote_def json_escape_char_def)

text \<open>
  Claim C5, as stated, fails: a result with 700 file names serialises to more than 3,000
  characters and comes back as an object whose \<^verbatim>\<open>files\<close> array has 81 items, the
  first 80 names and the note.
\<close>

theorem truncateToolResult_files_has_81_items:
  "3000 < length (json_stringify (JObj [(''files'', JArr (replicate 700 (JStr ''src/file.js'')))]))
   \<and> truncateToolResult (JObj [(''files'', JArr (replicate 700 (JStr ''src/file.js'')))])
       = JObj [(''files'', JArr (replicate 80 (JStr ''src/file.js'') @ [JStr ''... and 620 more files'']))]
   \<and> length (replicate 80 (JStr ''src/file.js'') @ [JStr ''... and 620 more files'']) = 81"
proof -
  have sl: "js_slice 0 80 (replicate 700 (JStr ''src/file.js'')) = replicate 80 (JStr ''src/file.js'')"
    using js_slice_take [of 80 "replicate 700 (JStr ''src/file.js'')"] by simp
  have n620: "show_nat 620 = ''620''" by (simp add: show_nat.simps digit_char_def)
  have before: "length (json_stringify (JObj [(''files'', JArr (replicate 700 (JStr ''src/file.js'')))])) = 9811"
    by (simp add: join_length quote_file_name quote_files_key sum_list_replicate)
  have after: "length (json_stringify (JObj [(''files'', JArr (replicate 80 (JStr ''src/file.js'') @ [JStr ''... and 620 more files'']))])) = 1156"
    by (simp add: join_length quote_file_name quote_files_key quote_files_note sum_list_replicate)
  have tc: "truncate_clone [(''files'', JArr (replicate 700 (JStr ''src/file.js'')))]
            = JObj [(''files'', JArr (replicate 80 (JStr ''src/file.js'') @ [JStr ''... and 620 more files'']))]"
    using after
    by (simp add: truncate_clone_def Let_def sl n620 MAX_TOOL_RESULT_CHARS_def del: json_stringify.simps)
  have "truncateToolResult (JObj [(''files'', JArr (replicate 700 (JStr ''src/file.js'')))])
        = truncate_clone [(''files'', JArr (replicate 700 (JStr ''src/file.js'')))]"
    using before by (simp add: truncateToolResult_def MAX_TOOL_RESULT_CHARS_def del: json_stringify.simps)
  then show ?thesis using before tc by simp
qed

section \<open>Double rounding: bounds on the head and tail sizes\<close>

lemma bitlen_bounds: "0 < x \<Longrightarrow> 2 ^ (bitlen x - 1) \<le> x \<and> x < 2 ^ bitlen x"
proof (induction x rule: bitlen.induct)
  case (1 n)
  show ?case
  proof (cases "n div 2 = 0")
    case True
    then have "n = 1" using "1.prems" by (simp add: div_eq_0_iff) 
    then show ?thesis by (simp add: bitlen.simps)
  next
    case False
    then have pos: "0 < n div 2" by simp
    have ih: "2 ^ (bitlen (n div 2) - 1) \<le> n div 2 \<and> n div 2 < 2 ^ bitlen (n div 2)"
      using "1.IH" "1.prems" pos by simp
    have bl: "bitlen n = Suc (bitlen (n div 2))" using "1.prems" by (subst bitlen.simps) simp
    have bpos: "0 < bitlen (n div 2)" using pos by (subst bitlen.simps) simp
    then obtain j where j: "bitlen (n div 2) = Suc j" by (cases "bitlen (n div 2)") auto
    define d where "d = n div 2"
    have half: "2 * d \<le> n \<and> n < 2 * d + 2" unfolding d_def by presburger
    have ihd: "2 ^ j \<le> d \<and> d < 2 * 2 ^ j" using ih j unfolding d_def by simp
    have lo: "2 * 2 ^ j \<le> n" using ihd half by linarith
    have hi: "n < 2 * 2 ^ Suc j" using ihd half by simp
    show ?thesis using lo hi bl j by simp
  qed
qed

lemma round53_bounds:
  "round53 x * 2 ^ 52 \<le> x * (2 ^ 52 + 1) \<and> x * (2 ^ 52 - 1) \<le> round53 x * 2 ^ 52"
proof (cases "bitlen x \<le> 53")
  case True
  then show ?thesis by (simp add: round53_def)
next
  case False
  define sh where "sh = bitlen x - 53"
  define q where "q = x div 2 ^ sh"
  define r where "r = x mod 2 ^ sh"
  have xpos: "0 < x" using False by (cases "x = 0") (simp_all add: bitlen.simps)
  have b: "bitlen x - 1 = 52 + sh" using False by (simp add: sh_def)
  have xlo: "2 ^ 52 * 2 ^ sh \<le> x" using bitlen_bounds [OF xpos] b by (simp add: power_add)
  have x: "x = q * 2 ^ sh + r" unfolding q_def r_def by (rule div_mult_mod_eq [symmetric])
  have rlt: "r < 2 ^ sh" by (simp add: r_def)
  have qlo: "2 ^ 52 \<le> q"
  proof -
    have "(2 ^ 52 * 2 ^ sh) div 2 ^ sh \<le> x div 2 ^ sh" by (rule div_le_mono [OF xlo])
    then show ?thesis by (simp add: q_def)
  qed
  have ulp: "2 ^ sh * 2 ^ 52 \<le> q * 2 ^ sh" using qlo by (simp add: mult.commute)
  have qx: "q * 2 ^ sh \<le> x" using x by simp
  have cases: "round53 x = q * 2 ^ sh \<or> round53 x = (q + 1) * 2 ^ sh"
    using False by (auto simp: round53_def Let_def sh_def q_def)
  have up: "(q + 1) * 2 ^ sh * 2 ^ 52 \<le> x * (2 ^ 52 + 1)"
  proof -
    have "(q + 1) * 2 ^ sh * 2 ^ 52 = q * 2 ^ sh * 2 ^ 52 + 2 ^ sh * 2 ^ 52" by (simp add: algebra_simps)
    also have "\<dots> \<le> x * 2 ^ 52 + x" using qx ulp by (meson add_mono le_trans mult_le_mono1)
    finally show ?thesis by (simp add: algebra_simps)
  qed
  have low: "x * (2 ^ 52 - 1) \<le> q * 2 ^ sh * 2 ^ 52"
  proof -
    have "r * 2 ^ 52 \<le> 2 ^ sh * 2 ^ 52" using rlt by simp
    then have rx: "r * 2 ^ 52 \<le> x" using ulp qx by linarith
    have "x * 2 ^ 52 = q * 2 ^ sh * 2 ^ 52 + r * 2 ^ 52" by (subst x) (simp add: algebra_simps)
    then have "x * 2 ^ 52 - x \<le> q * 2 ^ sh * 2 ^ 52" using rx by linarith
    then show ?thesis by (simp add: diff_mult_distrib2)
  qed
  have mono: "q * 2 ^ sh * 2 ^ 52 \<le> (q + 1) * 2 ^ sh * 2 ^ 52" by simp
  have mono': "q * 2 ^ sh * 2 ^ 52 \<le> x * (2 ^ 52 + 1)" using up mono by linarith
  have low': "x * (2 ^ 52 - 1) \<le> (q + 1) * 2 ^ sh * 2 ^ 52" using low mono by linarith
  show ?thesis using cases up low mono' low' by auto
qed

lemma floor_mul_0_7_upper: "4 * floor_mul_0_7 m \<le> 3 * m"
proof -
  define x where "x = m * 3152519739159347"
  define h where "h = round53 x div 2 ^ 52"
  have "h * 2 ^ 52 \<le> round53 x" by (simp add: h_def)
  then have "h * 2 ^ 52 * 2 ^ 52 \<le> round53 x * 2 ^ 52" by simp
  also have "\<dots> \<le> x * (2 ^ 52 + 1)" using round53_bounds by blast
  also have "\<dots> \<le> m * (3 * 2 ^ 102)" unfolding x_def by simp
  finally have "h * 2 ^ 52 * 2 ^ 52 \<le> m * (3 * 2 ^ 102)" .
  then have "4 * h \<le> 3 * m" by simp
  then show ?thesis by (simp add: floor_mul_0_7_def h_def x_def)
qed

lemma floor_mul_0_2_upper: "4 * floor_mul_0_2 m \<le> m"
proof -
  define x where "x = m * 3602879701896397"
  define t where "t = round53 x div 2 ^ 54"
  have "t * 2 ^ 54 \<le> round53 x" by (simp add: t_def)
  then have "t * 2 ^ 54 * 2 ^ 52 \<le> round53 x * 2 ^ 52" by simp
  also have "\<dots> \<le> x * (2 ^ 52 + 1)" using round53_bounds by blast
  also have "\<dots> \<le> m * 2 ^ 104" unfolding x_def by simp
  finally have "t * 2 ^ 54 * 2 ^ 52 \<le> m * 2 ^ 104" .
  then have "4 * t \<le> m" by simp
  then show ?thesis by (simp add: floor_mul_0_2_def t_def x_def)
qed

lemma floor_mul_0_2_pos: "8 \<le> m \<Longrightarrow> 0 < floor_mul_0_2 m"
proof -
  assume m: "8 \<le> m"
  define x where "x = m * 3602879701896397"
  define t where "t = round53 x div 2 ^ 54"
  have "round53 x < (t + 1) * 2 ^ 54"
    unfolding t_def using div_mult_mod_eq [of "round53 x" "2 ^ 54"]
      mod_less_divisor [of "2 ^ 54" "round53 x"] by (simp add: algebra_simps del: div_mult_mod_eq)
  then have "round53 x * 2 ^ 52 < (t + 1) * 2 ^ 54 * 2 ^ 52" by simp
  moreover have "x * (2 ^ 52 - 1) \<le> round53 x * 2 ^ 52" using round53_bounds by blast
  moreover have "m * 2 ^ 103 \<le> x * (2 ^ 52 - 1)" unfolding x_def by simp
  ultimately have "m * 2 ^ 103 < (t + 1) * 2 ^ 54 * 2 ^ 52" by linarith
  then have "m < 8 * (t + 1)" by simp
  then have "0 < t" using m by (cases t) auto
  then show ?thesis by (simp add: floor_mul_0_2_def t_def x_def)
qed

lemma head_tail_within_max: "floor_mul_0_7 m + floor_mul_0_2 m \<le> m"
  using floor_mul_0_7_upper [of m] floor_mul_0_2_upper [of m] by linarith

section \<open>Trimming to the context window\<close>

lemma estimateTokens_mono: "length a \<le> n \<Longrightarrow> estimateTokens a \<le> (2 * n + 6) div 7"
  by (auto simp: estimateTokens_def intro: div_le_mono)

lemma truncated_message_fits:
  assumes g: "100 \<le> g" and big: "g < estimateTokens c + 4" and len: "length c < 2 ^ 53"
  shows "estimateTokens (smartTruncate c ((7 * (g - 20)) div 2)) + 4 \<le> g"
proof -
  define rc where "rc = (7 * (g - 20)) div 2"
  have "2 * rc \<le> 7 * (g - 20)" unfolding rc_def by simp
  then have rc2: "2 * rc + 140 \<le> 7 * g" using g by simp
  have "560 div 2 \<le> (7 * (g - 20)) div 2" using g by (intro div_le_mono) simp
  then have rc_lo: "280 \<le> rc" unfolding rc_def by simp
  have ne: "c \<noteq> []" using big g by (auto simp: estimateTokens_def)
  define e where "e = (2 * length c + 6) div 7"
  have "e * 7 \<le> 2 * length c + 6" unfolding e_def by simp
  moreover have "g < e + 4" using big ne by (simp add: estimateTokens_def e_def)
  ultimately have long: "rc < length c" using rc2 by linarith
  have t: "0 < floor_mul_0_2 rc" using rc_lo by (intro floor_mul_0_2_pos) simp
  have "length (smartTruncate c rc) \<le> floor_mul_0_7 rc + floor_mul_0_2 rc + 49"
    by (rule smartTruncate_length [OF head_tail_within_max t len long])
  then have "length (smartTruncate c rc) \<le> rc + 49" using head_tail_within_max [of rc] by linarith
  then have "estimateTokens (smartTruncate c rc) \<le> (2 * (rc + 49) + 6) div 7"
    by (rule estimateTokens_mono)
  also have "\<dots> \<le> (7 * (g - 4)) div 7" using rc2 g by (intro div_le_mono) simp
  also have "\<dots> = g - 4" by simp
  finally show ?thesis unfolding rc_def using g by linarith
qed

lemma trim_loop_within_available:
  assumes "content_tokens kept \<le> used" and "used \<le> available"
      and "\<forall>m \<in> set ms. length (content m) < 2 ^ 53"
  shows "content_tokens (trim_loop available ms kept used) \<le> available"
  using assms
proof (induction ms arbitrary: kept used)
  case Nil
  then show ?case by simp
next
  case (Cons m ms)
  let ?tokens = "estimateTokens (content m) + 4"
  show ?case
  proof (cases "used + ?tokens \<le> available")
    case True
    have "content_tokens (m # kept) \<le> used + ?tokens"
      using Cons.prems(1) by (simp add: content_tokens_def)
    then have "content_tokens (trim_loop available ms (m # kept) (used + ?tokens)) \<le> available"
      using Cons.IH [of "m # kept" "used + ?tokens"] True Cons.prems(3) by simp
    then show ?thesis using True by (simp add: Let_def)
  next
    case False
    show ?thesis
    proof (cases "used + 100 \<le> available")
      case room: True
      have g: "100 \<le> available - used" using room by simp
      have big: "available - used < ?tokens" using False Cons.prems(2) by linarith
      have len: "length (content m) < 2 ^ 53" using Cons.prems(3) by simp
      have fits: "estimateTokens (smartTruncate (content m) ((7 * (available - used - 20)) div 2)) + 4
                  \<le> available - used"
        by (rule truncated_message_fits [OF g big len])
      have "content_tokens (m\<lparr>content := smartTruncate (content m) ((7 * (available - used - 20)) div 2)\<rparr> # kept)
            \<le> available"
        using fits Cons.prems(1,2) by (simp add: content_tokens_def)
      moreover have "content_tokens kept \<le> available" using Cons.prems(1,2) by linarith
      ultimately show ?thesis using False room by (simp add: Let_def)
    next
      case noroom: False
      have "content_tokens kept \<le> available" using Cons.prems(1,2) by linarith
      then show ?thesis using False noroom by (simp add: Let_def)
    qed
  qed
qed

lemma estimateMessagesTokens_split:
  "estimateMessagesTokens ms = content_tokens ms + sum_list (map (\<lambda>m. estimateTokens (role m)) ms)"
  by (induction ms) (simp_all add: estimateMessagesTokens_def content_tokens_def)

text \<open>
  Claim C3, as the code has it. For a list of more than two messages whose system prompt
  leaves room (the tokens of its content plus the 1,024 reserved for the reply are below
  the budget), the estimated token count of the output exceeds \<open>budget - 1020\<close> by
  no more than the role tokens of the output: the loop counts the content of each kept
  message and four tokens for it, and neither the roles nor the four tokens of the system
  message. Contents are strings of a length the language allows.
\<close>

theorem trimForContextWindow_accounted_tokens:
  assumes many: "2 < length msgs"
      and room: "estimateTokens (content (hd msgs)) + 1024 < budget"
      and strs: "\<forall>m \<in> set msgs. length (content m) < 2 ^ 53"
  shows "estimateMessagesTokens (trimForContextWindow msgs budget) + 1020
         \<le> budget + sum_list (map (\<lambda>m. estimateTokens (role m)) (trimForContextWindow msgs budget))"
proof -
  define sysTokens where "sysTokens = estimateTokens (content (hd msgs))"
  define available where "available = budget - sysTokens - 1024"
  define kept where "kept = trim_loop available (rev (tl msgs)) [] 0"
  have bpos: "budget \<noteq> 0" using room by auto
  have pos: "\<not> int budget - int (estimateTokens (content (hd msgs))) - 1024 \<le> 0"
    using room by linarith
  have av: "nat (int budget - int (estimateTokens (content (hd msgs))) - 1024) = available"
    unfolding available_def sysTokens_def using room by linarith
  have out: "trimForContextWindow msgs budget = hd msgs # kept"
    using many bpos pos unfolding trimForContextWindow_def Let_def kept_def av [symmetric]
    by simp
  have strs': "\<forall>m \<in> set (rev (tl msgs)). length (content m) < 2 ^ 53"
    using strs many by (cases msgs) auto
  have "content_tokens kept \<le> available"
    unfolding kept_def
    by (rule trim_loop_within_available [OF _ _ strs']) (simp_all add: content_tokens_def)
  then have "content_tokens (hd msgs # kept) + 1020 \<le> budget"
    using room unfolding available_def sysTokens_def content_tokens_def by simp
  then show ?thesis
    unfolding out estimateMessagesTokens_split by linarith
qed

theorem trimForContextWindow_accounted_tokens_witness:
  "2 < length [\<lparr>role = ''system'', content = ''You are a coding agent.''\<rparr>,
               \<lparr>role = ''user'', content = ''rename foo to bar''\<rparr>,
               \<lparr>role = ''assistant'', content = ''ok''\<rparr>]
   \<and> estimateTokens ''You are a coding agent.'' + 1024 < 6000
   \<and> estimateMessagesTokens (trimForContextWindow
         [\<lparr>role = ''system'', content = ''You are a coding agent.''\<rparr>,
          \<lparr>role = ''user'', content = ''rename foo to bar''\<rparr>,
          \<lparr>role = ''assistant'', content = ''ok''\<rparr>] 6000) + 1020
       \<le> 6000 + sum_list (map (\<lambda>m. estimateTokens (role m)) (trimForContextWindow
         [\<lparr>role = ''system'', content = ''You are a coding agent.''\<rparr>,
          \<lparr>role = ''user'', content = ''rename foo to bar''\<rparr>,
          \<lparr>role = ''assistant'', content = ''ok''\<rparr>] 6000))"
proof -
  let ?ms = "[\<lparr>role = ''system'', content = ''You are a coding agent.''\<rparr>,
              \<lparr>role = ''user'', content = ''rename foo to bar''\<rparr>,
              \<lparr>role = ''assistant'', content = ''ok''\<rparr>]"
  have h1: "2 < length ?ms" by simp
  have h2: "estimateTokens (content (hd ?ms)) + 1024 < 6000" by (simp add: estimateTokens_def)
  have h3: "\<forall>m \<in> set ?ms. length (content m) < 2 ^ 53" by simp
  show ?thesis
    using trimForContextWindow_accounted_tokens [OF h1 h2 h3] h2 by simp
qed


text \<open>
  Claim C3, as stated, fails: a list of at most two messages is returned as it is, and
  with a user message of 30,000 characters its estimate is above the budget of 6,000.
\<close>

theorem trimForContextWindow_two_messages_exceed_budget:
  "6000 < estimateMessagesTokens (trimForContextWindow
      [\<lparr>role = ''system'', content = ''You are a coding agent.''\<rparr>,
       \<lparr>role = ''user'', content = replicate 30000 CHR ''x''\<rparr>] 6000)"
  by (simp add: trimForContextWindow_def estimateMessagesTokens_def estimateTokens_def)

text \<open>A list of at most two messages is returned unchanged, whatever the budget.\<close>

lemma trimForContextWindow_short_list:
  "length msgs \<le> 2 \<Longrightarrow> trimForContextWindow msgs budget = msgs"
  by (simp add: trimForContextWindow_def)

section \<open>The handling of directives\<close>

lemma ensure_type_typed: "truthy (jget parsed ''type'') \<Longrightarrow> ensure_type parsed = parsed"
  by (cases parsed) simp_all

lemma track_plan_other:
  "jget parsed ''type'' = Some (JStr ty) \<Longrightarrow> ty \<noteq> ''thought'' \<Longrightarrow> track_plan parsed s = s"
  by (simp add: track_plan_def split: option.splits json.splits)









text \<open>
  Claim C9, as the code has it. In agent mode a \<^verbatim>\<open>delegate\<close> directive starts no
  delegation, no tool and no file access, and the registry stays as it is. The directive
  is sent to the client and recorded as an assistant message, the step counts as one
  without action, and the loop continues; the user-role nudge that demands an action is
  appended only when this is at least the second such step in a row.
\<close>

theorem delegate_in_agent_mode_is_thought_only:
  assumes ty: "jget parsed ''type'' = Some (JStr ''delegate'')"
      and mode: "\<not> agentPlus (st w)"
  shows "dispatch env parsed w =
     (Continue,
      w\<lparr>st := (st w)\<lparr>messages := messages (st w) @
                         \<lparr>role = ''assistant'', content = json_stringify parsed\<rparr> #
                         (if consecutiveStepsWithoutAction (st w) + 1 \<ge> 2 then [action_nudge] else []),
                      consecutiveFinals := 0,
                      consecutiveStepsWithoutAction := consecutiveStepsWithoutAction (st w) + 1\<rparr>,
        sent := sent w @ [parsed]\<rparr>)
   \<and> io (snd (dispatch env parsed w)) = io w
   \<and> activeAgents (snd (dispatch env parsed w)) = activeAgents w"
proof -
  have nn: "parsed \<noteq> JNull" using ty by auto
  have et: "ensure_type parsed = parsed" using ty by (simp add: ensure_type_typed)
  have tp: "track_plan parsed (st w) = st w" using ty by (simp add: track_plan_other)
  have dt: "delegate_tasks parsed (st w) = None" using mode by (simp add: delegate_tasks_def)
  have d: "dispatch env parsed w =
     (Continue,
      w\<lparr>st := (st w)\<lparr>messages := messages (st w) @
                         \<lparr>role = ''assistant'', content = json_stringify parsed\<rparr> #
                         (if consecutiveStepsWithoutAction (st w) + 1 \<ge> 2 then [action_nudge] else []),
                      consecutiveFinals := 0,
                      consecutiveStepsWithoutAction := consecutiveStepsWithoutAction (st w) + 1\<rparr>,
        sent := sent w @ [parsed]\<rparr>)"
    using nn ty
    by (simp add: dispatch_def et tp dt Let_def thought_only_def send_def push_def
        del: json_stringify.simps)
  show ?thesis unfolding d by simp
qed

theorem delegate_in_agent_mode_is_thought_only_witness:
  "jget example_delegate ''type'' = Some (JStr ''delegate'')
   \<and> \<not> agentPlus (st example_world)
   \<and> fst (dispatch example_env example_delegate example_world) = Continue
   \<and> io (snd (dispatch example_env example_delegate example_world)) = []
   \<and> sent (snd (dispatch example_env example_delegate example_world)) = [example_delegate]"
proof -
  have h1: "jget example_delegate ''type'' = Some (JStr ''delegate'')" by (simp add: example_delegate_def)
  have h2: "\<not> agentPlus (st example_world)" by (simp add: example_world_def example_state_def)
  show ?thesis
    using delegate_in_agent_mode_is_thought_only [OF h1 h2, of example_env] h1 h2
    by (simp add: example_world_def del: json_stringify.simps)
qed

text \<open>
  Claim C9, as stated, fails: on a fresh session in agent mode the \<^verbatim>\<open>delegate\<close>
  directive leaves the conversation ending with its own assistant message; no user
  message is injected.
\<close>

theorem delegate_in_agent_mode_without_nudge:
  "messages (st (snd (dispatch example_env example_delegate example_world)))
     = [\<lparr>role = ''system'', content = ''You are a coding agent.''\<rparr>,
        \<lparr>role = ''user'', content = ''rename foo to bar''\<rparr>,
        \<lparr>role = ''assistant'', content = json_stringify example_delegate\<rparr>]
   \<and> role (last (messages (st (snd (dispatch example_env example_delegate example_world))))) = ''assistant''"
  by (simp add: dispatch_def example_delegate_def example_world_def example_state_def
      delegate_tasks_def track_plan_def thought_only_def send_def push_def Let_def
      del: json_stringify.simps)

section \<open>Stopping a run\<close>

lemma stop_agent_sets_flag:
  "sessionId (st w) \<in> activeAgents w \<Longrightarrow>
   stop_agent (sessionId (st w)) w = (True, w\<lparr>st := (st w)\<lparr>stopRequested := True\<rparr>\<rparr>)"
  by (simp add: stop_agent_def)

text \<open>
  Claim C2, as the code has it. After the stop endpoint has set the flag of a registered
  session, the loop, at its next step boundary below the step cap, saves a checkpoint,
  sends exactly one event, the final \<^verbatim>\<open>Agent stopped by user.\<close>, clears the flag and
  returns: no action event is sent from that boundary on. The session stays in the
  registry.
\<close>

theorem stop_request_ends_run_at_step_boundary:
  assumes reg: "sessionId (st w) \<in> activeAgents w"
      and more: "step (st w) < maxSteps"
  shows "runLoop envs maxSteps (snd (stop_agent (sessionId (st w)) w)) =
           (Return, w\<lparr>st := (st w)\<lparr>stopRequested := False\<rparr>,
                      sent := sent w @ [final ''Agent stopped by user.''],
                      io := io w @ [Save_checkpoint]\<rparr>)
       \<and> sessionId (st w) \<in> activeAgents (snd (runLoop envs maxSteps (snd (stop_agent (sessionId (st w)) w))))"
proof -
  let ?w = "w\<lparr>st := (st w)\<lparr>stopRequested := True\<rparr>\<rparr>"
  have s: "snd (stop_agent (sessionId (st w)) w) = ?w" using reg by (simp add: stop_agent_sets_flag)
  have a: "\<And>env. agent_step env ?w =
           (Return, w\<lparr>st := (st w)\<lparr>stopRequested := False\<rparr>,
                      sent := sent w @ [final ''Agent stopped by user.''],
                      io := io w @ [Save_checkpoint]\<rparr>)"
    by (simp add: agent_step_def Let_def send_def perform_def)
  have r: "runLoop envs maxSteps ?w =
           (Return, w\<lparr>st := (st w)\<lparr>stopRequested := False\<rparr>,
                      sent := sent w @ [final ''Agent stopped by user.''],
                      io := io w @ [Save_checkpoint]\<rparr>)"
    using more by (subst runLoop.simps) (simp add: a)
  show ?thesis unfolding s r using reg by simp
qed

theorem stop_request_ends_run_at_step_boundary_witness:
  "sessionId (st example_world) \<in> activeAgents example_world
   \<and> step (st example_world) < 500
   \<and> fst (runLoop example_envs 500 (snd (stop_agent (sessionId (st example_world)) example_world))) = Return
   \<and> sent (snd (runLoop example_envs 500 (snd (stop_agent (sessionId (st example_world)) example_world))))
       = [final ''Agent stopped by user.'']"
proof -
  have h1: "sessionId (st example_world) \<in> activeAgents example_world"
    by (simp add: example_world_def example_state_def)
  have h2: "step (st example_world) < 500" by (simp add: example_world_def example_state_def)
  show ?thesis
    using stop_request_ends_run_at_step_boundary [OF h1 h2, of example_envs] h1 h2
    by (simp add: example_world_def)
qed

text \<open>
  Claim C2, as stated, fails: after a stop request and the run that ends on it, the
  session \<^verbatim>\<open>s1\<close> is still in the registry.
\<close>

theorem stopped_session_stays_registered:
  "fst (stop_agent ''s1'' example_world) = True
   \<and> fst (runLoop example_envs 500 (snd (stop_agent ''s1'' example_world))) = Return
   \<and> ''s1'' \<in> activeAgents (snd (runLoop example_envs 500 (snd (stop_agent ''s1'' example_world))))"
  by (subst runLoop.simps, subst runLoop.simps)
     (simp add: stop_agent_def example_world_def example_state_def agent_step_def Let_def
        send_def perform_def)

text \<open>
  The flag is read only at the head of a step: an \<^verbatim>\<open>action\<close> directive that arrives
  in a step already under way is sent to the client whatever the flag says.
\<close>

lemma action_event_sent_whatever_the_flag:
  assumes ty: "jget parsed ''type'' = Some (JStr ''action'')"
  shows "prefix (sent w @ [parsed]) (sent (snd (dispatch env parsed w)))"
proof -
  have nn: "parsed \<noteq> JNull" using ty by auto
  have et: "ensure_type parsed = parsed" using ty by (simp add: ensure_type_typed)
  have tp: "track_plan parsed (st w) = st w" using ty by (simp add: track_plan_other)
  have dt: "delegate_tasks parsed (st w) = None" using ty by (simp add: delegate_tasks_def)
  show ?thesis
    using nn ty
    by (simp add: dispatch_def et tp dt Let_def handle_action_def executeToolAction_def
        send_def push_def split: bool.splits del: json_stringify.simps)
qed

section \<open>The head size in double arithmetic\<close>

text \<open>
  \<^verbatim>\<open>Math.floor(maxChars * 0.7)\<close> is computed on doubles: for a maximum of 90 the
  product is just below 63 and the head has 62 characters.
\<close>

lemma floor_mul_0_7_of_90: "floor_mul_0_7 90 = 62"
  by (simp add: floor_mul_0_7_def round53_def bitlen.simps Let_def)

end
